theory Spec2Isabelle
  imports Main "HOL-Library.Word"
begin

section \<open>Data model\<close>

text \<open>
  A string is a sequence of bytes (the \<^verbatim>\<open>c_str()\<close> and \<^verbatim>\<open>length()\<close> of one element of a
  \<^verbatim>\<open>StriContainerUTF8\<close>). A code point is a \<^verbatim>\<open>UChar32\<close>; a negative value is the marker
  of an ill-formed sequence. A character class is used through \<^verbatim>\<open>contains\<close> only.
  Byte offsets (\<^verbatim>\<open>j\<close>, \<^verbatim>\<open>jlast\<close>) index the byte sequence and are natural numbers;
  code point indices (\<^verbatim>\<open>k\<close>) are the integers handed back to R. Offsets and indices
  never exceed the length of the string they belong to. The sizes that the replace
  functions compute from several lengths can: they are computed in \<^verbatim>\<open>R_len_t\<close>, an
  \<^verbatim>\<open>int\<close> of 32 bits (section ``Sizes'').
\<close>

type_synonym byte = "8 word"
type_synonym UChar32 = int
type_synonym UnicodeSet = "UChar32 \<Rightarrow> bool"

text \<open>
  The only exception the four functions throw is \<^verbatim>\<open>StriException(MSG__INVALID_UTF8)\<close>; it
  leaves the loop over the rows and the function.
\<close>

datatype failure = MSG__INVALID_UTF8

section \<open>The code point scanner\<close>

text \<open>
  The macros \<^verbatim>\<open>U8_NEXT\<close> and \<^verbatim>\<open>U8_PREV\<close> that the loops call come from the ICU headers,
  which are not among the source files. They are modelled as the code point scanner of
  the specification: the next (previous) code point and the cursor moved past it, a
  negative code point for an ill-formed sequence. Well-formed sequences are those of the
  Unicode standard (no overlong forms, no surrogates, nothing above U+10FFFF).
\<close>

definition is_trail :: "nat \<Rightarrow> bool" where
  "is_trail b = (0x80 \<le> b \<and> b \<le> 0xBF)"

definition lead_len :: "nat \<Rightarrow> nat" where
  "lead_len a =
     (if a < 0x80 then 1
      else if 0xC2 \<le> a \<and> a \<le> 0xDF then 2
      else if 0xE0 \<le> a \<and> a \<le> 0xEF then 3
      else if 0xF0 \<le> a \<and> a \<le> 0xF4 then 4
      else 0)"

text \<open>The code point of a byte sequence that is exactly one well-formed UTF-8 sequence.\<close>

fun seq_cp :: "nat list \<Rightarrow> UChar32 option" where
  "seq_cp [a] = (if a < 0x80 then Some (int a) else None)"
| "seq_cp [a, b] =
     (if 0xC2 \<le> a \<and> a \<le> 0xDF \<and> is_trail b
      then Some (int ((a - 0xC0) * 64 + (b - 0x80))) else None)"
| "seq_cp [a, b, c] =
     (if 0xE0 \<le> a \<and> a \<le> 0xEF \<and> is_trail b \<and> is_trail c
         \<and> (if a = 0xE0 then 0xA0 \<le> b else True)
         \<and> (if a = 0xED then b \<le> 0x9F else True)
      then Some (int ((a - 0xE0) * 4096 + (b - 0x80) * 64 + (c - 0x80))) else None)"
| "seq_cp [a, b, c, d] =
     (if 0xF0 \<le> a \<and> a \<le> 0xF4 \<and> is_trail b \<and> is_trail c \<and> is_trail d
         \<and> (if a = 0xF0 then 0x90 \<le> b else True)
         \<and> (if a = 0xF4 then b \<le> 0x8F else True)
      then Some (int ((a - 0xF0) * 262144 + (b - 0x80) * 4096 + (c - 0x80) * 64 + (d - 0x80)))
      else None)"
| "seq_cp _ = None"

text \<open>
  Modelled from the spec: the macro \<^verbatim>\<open>U8_NEXT(s, i, length, c)\<close> (ICU, not among the source
  files), the forward step of the scanner. The result is the pair of \<^verbatim>\<open>c\<close> and the new
  \<^verbatim>\<open>i\<close>: the code point of the well-formed sequence that starts at \<^verbatim>\<open>i\<close> and the offset
  after it, or a negative \<^verbatim>\<open>c\<close>. After an ill-formed sequence the cursor has moved by one
  byte; every caller raises at once, so that position is never used.
\<close>

definition U8_NEXT :: "byte list \<Rightarrow> nat \<Rightarrow> nat \<Rightarrow> UChar32 \<times> nat" where
  "U8_NEXT s i n =
     (case map unat (take (n - i) (drop i s)) of
        [] \<Rightarrow> (- 1, i + 1)
      | a # w \<Rightarrow>
          (case seq_cp (take (lead_len a) (a # w)) of
             Some c \<Rightarrow> (c, i + lead_len a)
           | None \<Rightarrow> (- 1, i + 1)))"

text \<open>
  Modelled from the spec: the macro \<^verbatim>\<open>U8_PREV(s, start, i, c)\<close> (ICU, not among the source
  files), the backward step of the scanner. It steps back over at most three trail
  bytes to a lead byte and decodes the sequence that ends right before \<^verbatim>\<open>i\<close>; the
  result is the pair of \<^verbatim>\<open>c\<close> and the new \<^verbatim>\<open>i\<close>.
\<close>

definition back_len :: "nat list \<Rightarrow> nat" where
  "back_len w = min 4 (Suc (length (takeWhile is_trail (rev w))))"

definition U8_PREV :: "byte list \<Rightarrow> nat \<Rightarrow> nat \<Rightarrow> UChar32 \<times> nat" where
  "U8_PREV s start i =
     (let w = map unat (drop start (take i s));
          q = drop (length w - back_len w) w
      in case seq_cp q of
           Some c \<Rightarrow> (c, i - length q)
         | None \<Rightarrow> (- 1, i - 1))"

lemma seq_cp_length: "seq_cp q = Some c \<Longrightarrow> 1 \<le> length q \<and> length q \<le> 4"
  by (induction q rule: seq_cp.induct) simp_all

lemma seq_cp_lead_len: "seq_cp q = Some c \<Longrightarrow> lead_len (hd q) = length q"
  by (induction q rule: seq_cp.induct) (simp_all add: lead_len_def split: if_splits)

lemma seq_cp_nonneg: "seq_cp q = Some c \<Longrightarrow> 0 \<le> c"
  by (induction q rule: seq_cp.induct) (simp_all split: if_splits)

lemma U8_NEXT_advance: "U8_NEXT s i n = (c, i') \<Longrightarrow> i < i'"
  by (auto simp: U8_NEXT_def lead_len_def split: list.splits option.splits if_splits
      dest!: seq_cp_lead_len)

lemma U8_PREV_retreat: "U8_PREV s start i = (c, i') \<Longrightarrow> 0 < i \<Longrightarrow> i' < i"
proof -
  assume a: "U8_PREV s start i = (c, i')" and p: "0 < i"
  define w where "w = map unat (drop start (take i s))"
  define q where "q = drop (length w - back_len w) w"
  have u: "U8_PREV s start i = (case seq_cp q of Some c \<Rightarrow> (c, i - length q) | None \<Rightarrow> (- 1, i - 1))"
    unfolding U8_PREV_def Let_def q_def w_def ..
  show ?thesis
  proof (cases "seq_cp q")
    case None
    with a p u show ?thesis by auto
  next
    case (Some d)
    from seq_cp_length [OF Some] a p Some u show ?thesis by auto
  qed
qed


text \<open>
  The scanner's output as the specification describes it: the triples of code point,
  byte start and byte end, forward from a cursor or backward from one. A scan ends
  with the marker of the first ill-formed sequence it meets.
\<close>

function scan_forward :: "byte list \<Rightarrow> nat \<Rightarrow> (UChar32 \<times> nat \<times> nat) list" where
  "scan_forward s j =
     (if j < length s then
        (case U8_NEXT s j (length s) of
           (chr, j') \<Rightarrow> (chr, j, j') # (if chr < 0 then [] else scan_forward s j'))
      else [])"
  by pat_completeness auto
termination
  by (relation "measure (\<lambda>(s, j). length s - j)") (auto dest: U8_NEXT_advance [OF sym])

function scan_backward :: "byte list \<Rightarrow> nat \<Rightarrow> (UChar32 \<times> nat \<times> nat) list" where
  "scan_backward s i =
     (if 0 < i then
        (case U8_PREV s 0 i of
           (chr, i') \<Rightarrow> (chr, i', i) # (if chr < 0 then [] else scan_backward s i'))
      else [])"
  by pat_completeness auto
termination
  by (relation "measure (\<lambda>(s, i). i)") (auto dest: U8_PREV_retreat [OF sym])

definition valid_cp :: "UChar32 \<times> nat \<times> nat \<Rightarrow> bool" where
  "valid_cp t = (0 \<le> fst t)"

definition well_formed :: "byte list \<Rightarrow> bool" where
  "well_formed s = list_all valid_cp (scan_forward s 0)"

section \<open>The loop over the rows\<close>


section \<open>Locating a character class\<close>

subsection \<open>\<^verbatim>\<open>stri__locate_firstlast_charclass\<close>\<close>

function locate_firstlast_loop ::
  "UnicodeSet \<Rightarrow> bool \<Rightarrow> byte list \<Rightarrow> nat \<Rightarrow> int \<Rightarrow> int option \<Rightarrow> failure + int option" where
  "locate_firstlast_loop pattern_cur first s j k ret =
     (if j < length s then
        (case U8_NEXT s j (length s) of
           (chr, j') \<Rightarrow>
             if chr < 0 then Inl MSG__INVALID_UTF8
             else if pattern_cur chr then
               (if first then Inr (Some (k + 1))
                else locate_firstlast_loop pattern_cur first s j' (k + 1) (Some (k + 1)))
             else locate_firstlast_loop pattern_cur first s j' (k + 1) ret)
      else Inr ret)"
  by pat_completeness auto
termination
  by (relation "measure (\<lambda>(p, f, s, j, k, r). length s - j)")
    (auto dest: U8_NEXT_advance [OF sym])

text \<open>
  One row of the result matrix: \<^verbatim>\<open>ret_tab[i]\<close> and \<^verbatim>\<open>ret_tab[i+vectorize_length]\<close>,
  \<open>None\<close> for \<^verbatim>\<open>NA_INTEGER\<close>.
\<close>

type_synonym int_pair = "int option \<times> int option"

definition locate_firstlast_row ::
  "bool \<Rightarrow> byte list option \<times> UnicodeSet option \<Rightarrow> failure + int_pair" where
  "locate_firstlast_row first row =
     (case row of
        (Some s, Some pattern_cur) \<Rightarrow>
          (case locate_firstlast_loop pattern_cur first s 0 0 None of
             Inl e \<Rightarrow> Inl e
           | Inr r \<Rightarrow> Inr (r, r))
      | _ \<Rightarrow> Inr (None, None))"




subsection \<open>\<^verbatim>\<open>stri_locate_all_charclass\<close>\<close>

function locate_all_loop ::
  "UnicodeSet \<Rightarrow> byte list \<Rightarrow> nat \<Rightarrow> int \<Rightarrow> int list \<Rightarrow> failure + int list" where
  "locate_all_loop pattern_cur s j k occurrences =
     (if j < length s then
        (case U8_NEXT s j (length s) of
           (chr, j') \<Rightarrow>
             if chr < 0 then Inl MSG__INVALID_UTF8
             else if pattern_cur chr
               then locate_all_loop pattern_cur s j' (k + 1) (occurrences @ [k + 1])
               else locate_all_loop pattern_cur s j' (k + 1) occurrences)
      else Inr occurrences)"
  by pat_completeness auto
termination
  by (relation "measure (\<lambda>(p, s, j, k, occ). length s - j)")
    (auto dest: U8_NEXT_advance [OF sym])

text \<open>The body of the merging loop: continue the last sequence or start a new one.\<close>

definition merge_seq :: "(int \<times> int) list \<Rightarrow> int \<Rightarrow> (int \<times> int) list" where
  "merge_seq occurrences2 curoccur =
     (if snd (last occurrences2) = curoccur - 1
      then butlast occurrences2 @ [(fst (last occurrences2), curoccur)]
      else occurrences2 @ [(curoccur, curoccur)])"

text \<open>The merge of a non-empty deque of indices (it is entered with more than one).\<close>

fun do_merge :: "int list \<Rightarrow> (int \<times> int) list" where
  "do_merge [] = []"
| "do_merge (x # xs) = foldl merge_seq [(x, x)] xs"

text \<open>A matrix with two columns is the list of its rows; \<open>notfound\<close> is the 1x2 matrix of NA.\<close>

type_synonym int_matrix = "int_pair list"

definition notfound :: int_matrix where
  "notfound = [(None, None)]"

definition locate_all_row ::
  "byte list option \<times> UnicodeSet option \<times> bool option \<Rightarrow> failure + int_matrix" where
  "locate_all_row row =
     (case row of
        (Some s, Some pattern_cur, Some merge_cur) \<Rightarrow>
          (case locate_all_loop pattern_cur s 0 0 [] of
             Inl e \<Rightarrow> Inl e
           | Inr occurrences \<Rightarrow>
               Inr (if length occurrences = 0 then notfound
                    else if merge_cur \<and> length occurrences > 1
                      then map (\<lambda>(f, t). (Some f, Some t)) (do_merge occurrences)
                      else map (\<lambda>k. (Some k, Some k)) occurrences))
      | _ \<Rightarrow> Inr notfound)"


section \<open>Replacing a character class\<close>

text \<open>
  An element of the result vector: \<^verbatim>\<open>NA_STRING\<close>, the input string itself
  (\<^verbatim>\<open>str_cont.toR(i)\<close>, no change), or a new string made from the buffer
  (\<^verbatim>\<open>Rf_mkCharLenCE\<close>).

  Two things a row of the replace functions does have no defined behaviour in the source
  when they go wrong, and neither throws: the computation of the size \<^verbatim>\<open>buf_need\<close> when
  it overflows, and a \<^verbatim>\<open>memcpy\<close> (or the final \<^verbatim>\<open>Rf_mkCharLenCE\<close>) that reaches outside
  the buffer or the string. The source defines no element for such a row; the model
  gives it the element \<open>UNDEFINED\<close>. So an element other than \<open>UNDEFINED\<close> is a proof
  that the size was computed without overflow and that every byte was read and written
  inside the string and the buffer. The loop of the model goes on with the next row
  after an \<open>UNDEFINED\<close> element; the source promises nothing from there on.
\<close>

datatype CHARSXP = NA_STRING | toR "byte list" | mkChar "byte list" | UNDEFINED

fun bytes_of :: "CHARSXP \<Rightarrow> byte list option" where
  "bytes_of NA_STRING = None"
| "bytes_of (toR s) = Some s"
| "bytes_of (mkChar s) = Some s"
| "bytes_of UNDEFINED = None"

subsection \<open>Sizes\<close>

text \<open>
  \<^verbatim>\<open>R_len_t\<close> is \<^verbatim>\<open>int\<close> (\<^verbatim>\<open>typedef int R_len_t;\<close> in the headers of R, which are not
  among the source files), a signed integer of 32 bits. The lengths that the containers
  give, the number of spans and the byte offsets are \<^verbatim>\<open>R_len_t\<close> values, and the source
  adds and multiplies them without a check. An operation on two \<^verbatim>\<open>int\<close>s whose exact
  result is not an \<^verbatim>\<open>int\<close> is a signed overflow and has no defined behaviour: it is
  \<open>None\<close> here. (On the usual machines the value wraps around; the buffer is then
  resized to less than the copy pass writes.) No string of R has more than \<^verbatim>\<open>INT_MAX\<close>
  bytes; a longer byte list is outside what the source can be given, no operand of the
  source has its length, and the model computes with it exactly.
\<close>

definition INT_MAX :: int where
  "INT_MAX = 2147483647"

definition INT_MIN :: int where
  "INT_MIN = - 2147483648"

definition representable :: "int \<Rightarrow> bool" where
  "representable x = (INT_MIN \<le> x \<and> x \<le> INT_MAX)"

definition checked :: "(int \<Rightarrow> int \<Rightarrow> int) \<Rightarrow> int \<Rightarrow> int \<Rightarrow> int option" where
  "checked f a b =
     (if representable a \<and> representable b \<and> \<not> representable (f a b) then None
      else Some (f a b))"

subsection \<open>The scratch buffer\<close>

text \<open>
  Modelled from the spec: the class \<^verbatim>\<open>String8buf\<close> and its \<^verbatim>\<open>resize\<close> (a header that is not
  among the source files). It is the growable scratch buffer of the specification:
  resizing gives at least the requested number of bytes and says nothing about their
  contents, which are those of the memory \<open>mem\<close> when the buffer is allocated anew.
\<close>

type_synonym String8buf = "byte list"

definition resize :: "(nat \<Rightarrow> byte) \<Rightarrow> String8buf \<Rightarrow> int \<Rightarrow> String8buf" where
  "resize mem buf len = (if len \<le> int (length buf) then buf else map mem [0..<nat len])"

text \<open>
  \<^verbatim>\<open>memcpy(buf + dst, src + off, n)\<close>: \<open>n\<close> bytes of \<open>src\<close> from offset \<open>off\<close> are
  written into \<open>buf\<close> at offset \<open>dst\<close>. The count is the signed difference the source
  computes; a negative count or an access outside either sequence is \<open>None\<close>.
\<close>

definition memcpy :: "String8buf \<Rightarrow> nat \<Rightarrow> byte list \<Rightarrow> nat \<Rightarrow> int \<Rightarrow> String8buf option" where
  "memcpy buf dst src off n =
     (if 0 \<le> n \<and> dst + nat n \<le> length buf \<and> off + nat n \<le> length src
      then Some (take dst buf @ take (nat n) (drop off src) @ drop (dst + nat n) buf)
      else None)"

definition Rf_mkCharLenCE :: "String8buf \<Rightarrow> int \<Rightarrow> CHARSXP option" where
  "Rf_mkCharLenCE data len =
     (if 0 \<le> len \<and> nat len \<le> length data then Some (mkChar (take (nat len) data)) else None)"

subsection \<open>\<^verbatim>\<open>stri_replace_all_charclass\<close>\<close>

text \<open>
  The body of the branch taken for a matching code point that lies in \<^verbatim>\<open>[jlast, j)\<close>:
  extend the last span or push a new one.
\<close>

definition push_occurrence ::
  "bool \<Rightarrow> (nat \<times> nat) list \<Rightarrow> nat \<Rightarrow> nat \<Rightarrow> (nat \<times> nat) list" where
  "push_occurrence merge_cur occurrences jlast j =
     (if merge_cur \<and> length occurrences > 0 \<and> snd (last occurrences) = jlast
      then butlast occurrences @ [(fst (last occurrences), j)]
      else occurrences @ [(jlast, j)])"

function collect_occurrences ::
  "UnicodeSet \<Rightarrow> bool \<Rightarrow> byte list \<Rightarrow> nat \<Rightarrow> nat \<Rightarrow> (nat \<times> nat) list \<Rightarrow> nat
     \<Rightarrow> failure + (nat \<times> nat) list \<times> nat" where
  "collect_occurrences pattern_cur merge_cur s j jlast occurrences sumbytes =
     (if j < length s then
        (case U8_NEXT s j (length s) of
           (chr, j') \<Rightarrow>
             if chr < 0 then Inl MSG__INVALID_UTF8
             else if pattern_cur chr
               then collect_occurrences pattern_cur merge_cur s j' j'
                      (push_occurrence merge_cur occurrences jlast j')
                      (sumbytes + (j' - jlast))
               else collect_occurrences pattern_cur merge_cur s j' j' occurrences sumbytes)
      else Inr (occurrences, sumbytes))"
  by pat_completeness auto
termination
  by (relation "measure (\<lambda>(p, m, s, j, jl, occ, sb). length s - j)")
    (auto dest: U8_NEXT_advance [OF sym])

text \<open>
  The copy pass. Its state is the buffer, the write position \<^verbatim>\<open>curbuf\<close> (as an offset
  into the buffer) and \<^verbatim>\<open>jlast\<close>.
\<close>

definition copy_match ::
  "byte list \<Rightarrow> byte list \<Rightarrow> String8buf \<times> nat \<times> nat \<Rightarrow> nat \<times> nat
     \<Rightarrow> (String8buf \<times> nat \<times> nat) option" where
  "copy_match s replacement_cur st match =
     (case st of
        (buf, curbuf, jlast) \<Rightarrow>
          (case memcpy buf curbuf s jlast (int (fst match) - int jlast) of
             None \<Rightarrow> None
           | Some buf1 \<Rightarrow>
               (case memcpy buf1 (curbuf + (fst match - jlast)) replacement_cur 0
                       (int (length replacement_cur)) of
                  None \<Rightarrow> None
                | Some buf2 \<Rightarrow>
                    Some (buf2, curbuf + (fst match - jlast) + length replacement_cur, snd match))))"

fun copy_pass ::
  "byte list \<Rightarrow> byte list \<Rightarrow> String8buf \<times> nat \<times> nat \<Rightarrow> (nat \<times> nat) list
     \<Rightarrow> (String8buf \<times> nat \<times> nat) option" where
  "copy_pass s replacement_cur st [] = Some st"
| "copy_pass s replacement_cur st (match # rest) =
     (case copy_match s replacement_cur st match of
        None \<Rightarrow> None
      | Some st' \<Rightarrow> copy_pass s replacement_cur st' rest)"

text \<open>
  \<^verbatim>\<open>R_len_t buf_need = str_cur_n+(R_len_t)occurrences.size()*replacement_cur_n-sumbytes;\<close>
  The product is computed first, then the sum, then the difference, each in \<^verbatim>\<open>R_len_t\<close>.
\<close>

definition buf_need_all ::
  "byte list \<Rightarrow> byte list \<Rightarrow> (nat \<times> nat) list \<Rightarrow> nat \<Rightarrow> int option" where
  "buf_need_all s replacement_cur occurrences sumbytes =
     (case checked times (int (length occurrences)) (int (length replacement_cur)) of
        None \<Rightarrow> None
      | Some repl_n \<Rightarrow>
          (case checked plus (int (length s)) repl_n of
             None \<Rightarrow> None
           | Some sum_n \<Rightarrow> checked minus sum_n (int sumbytes)))"

text \<open>A row takes the scratch buffer and gives it back with the element of the result.\<close>

definition replace_all_row ::
  "(nat \<Rightarrow> byte) \<Rightarrow> String8buf
     \<Rightarrow> byte list option \<times> UnicodeSet option \<times> byte list option \<times> bool option
     \<Rightarrow> failure + CHARSXP \<times> String8buf" where
  "replace_all_row mem buf row =
     (case row of
        (Some s, Some pattern_cur, Some replacement_cur, Some merge_cur) \<Rightarrow>
          (case collect_occurrences pattern_cur merge_cur s 0 0 [] 0 of
             Inl e \<Rightarrow> Inl e
           | Inr (occurrences, sumbytes) \<Rightarrow>
               if length occurrences = 0 then Inr (toR s, buf)
               else
                 (case buf_need_all s replacement_cur occurrences sumbytes of
                    None \<Rightarrow> Inr (UNDEFINED, buf)
                  | Some buf_need \<Rightarrow>
                      let buf0 = resize mem buf buf_need
                      in (case copy_pass s replacement_cur (buf0, 0, 0) occurrences of
                            None \<Rightarrow> Inr (UNDEFINED, buf0)
                          | Some (buf1, curbuf, jlast) \<Rightarrow>
                              (case memcpy buf1 curbuf s jlast (int (length s) - int jlast) of
                                 None \<Rightarrow> Inr (UNDEFINED, buf1)
                               | Some buf2 \<Rightarrow>
                                   (case Rf_mkCharLenCE buf2 buf_need of
                                      None \<Rightarrow> Inr (UNDEFINED, buf2)
                                    | Some x \<Rightarrow> Inr (x, buf2))))))
      | _ \<Rightarrow> Inr (NA_STRING, buf))"

text \<open>The loop over the rows, with the scratch buffer declared before it.\<close>

fun vectorize_buf ::
  "(String8buf \<Rightarrow> 'row \<Rightarrow> failure + 'res \<times> String8buf) \<Rightarrow> String8buf \<Rightarrow> 'row list
     \<Rightarrow> failure + 'res list" where
  "vectorize_buf f buf [] = Inr []"
| "vectorize_buf f buf (r # rs) =
     (case f buf r of
        Inl e \<Rightarrow> Inl e
      | Inr (x, buf') \<Rightarrow>
          (case vectorize_buf f buf' rs of Inl e \<Rightarrow> Inl e | Inr xs \<Rightarrow> Inr (x # xs)))"

definition stri_replace_all_charclass ::
  "(nat \<Rightarrow> byte)
     \<Rightarrow> (byte list option \<times> UnicodeSet option \<times> byte list option \<times> bool option) list
     \<Rightarrow> failure + CHARSXP list" where
  "stri_replace_all_charclass mem rows = vectorize_buf (replace_all_row mem) [] rows"

subsection \<open>\<^verbatim>\<open>stri__replace_firstlast_charclass\<close>\<close>

text \<open>Both searches give the final \<^verbatim>\<open>j\<close> and \<^verbatim>\<open>jlast\<close>: the match is \<^verbatim>\<open>[jlast, j)\<close>.\<close>

function search_first :: "UnicodeSet \<Rightarrow> byte list \<Rightarrow> nat \<Rightarrow> nat \<Rightarrow> failure + nat \<times> nat" where
  "search_first pattern_cur s j jlast =
     (if j < length s then
        (case U8_NEXT s j (length s) of
           (chr, j') \<Rightarrow>
             if chr < 0 then Inl MSG__INVALID_UTF8
             else if pattern_cur chr then Inr (j', jlast)
             else search_first pattern_cur s j' j')
      else Inr (j, jlast))"
  by pat_completeness auto
termination
  by (relation "measure (\<lambda>(p, s, j, jl). length s - j)") (auto dest: U8_NEXT_advance [OF sym])

function search_last :: "UnicodeSet \<Rightarrow> byte list \<Rightarrow> nat \<Rightarrow> nat \<Rightarrow> failure + nat \<times> nat" where
  "search_last pattern_cur s j jlast =
     (if jlast > 0 then
        (case U8_PREV s 0 jlast of
           (chr, jlast') \<Rightarrow>
             if chr < 0 then Inl MSG__INVALID_UTF8
             else if pattern_cur chr then Inr (j, jlast')
             else search_last pattern_cur s jlast' jlast')
      else Inr (j, jlast))"
  by pat_completeness auto
termination
  by (relation "measure (\<lambda>(p, s, j, jl). jl)") (auto dest: U8_PREV_retreat [OF sym])

text \<open>
  \<^verbatim>\<open>R_len_t buf_need = str_cur_n+replacement_cur_n-(j-jlast);\<close> The sum of the two lengths
  and the length of the match are computed first, then their difference.
\<close>

definition buf_need_one :: "byte list \<Rightarrow> byte list \<Rightarrow> nat \<Rightarrow> nat \<Rightarrow> int option" where
  "buf_need_one s replacement_cur j jlast =
     (case checked plus (int (length s)) (int (length replacement_cur)) of
        None \<Rightarrow> None
      | Some sum_n \<Rightarrow>
          (case checked minus (int j) (int jlast) of
             None \<Rightarrow> None
           | Some match_n \<Rightarrow> checked minus sum_n match_n))"

definition replace_firstlast_row ::
  "bool \<Rightarrow> (nat \<Rightarrow> byte) \<Rightarrow> String8buf
     \<Rightarrow> byte list option \<times> UnicodeSet option \<times> byte list option
     \<Rightarrow> failure + CHARSXP \<times> String8buf" where
  "replace_firstlast_row first mem buf row =
     (case row of
        (Some s, Some pattern_cur, Some replacement_cur) \<Rightarrow>
          (case (if first then search_first pattern_cur s 0 0
                 else search_last pattern_cur s (length s) (length s)) of
             Inl e \<Rightarrow> Inl e
           | Inr (j, jlast) \<Rightarrow>
               if j = jlast then Inr (toR s, buf)
               else
                 (case buf_need_one s replacement_cur j jlast of
                    None \<Rightarrow> Inr (UNDEFINED, buf)
                  | Some buf_need \<Rightarrow>
                      let buf0 = resize mem buf buf_need
                      in (case memcpy buf0 0 s 0 (int jlast) of
                            None \<Rightarrow> Inr (UNDEFINED, buf0)
                          | Some buf1 \<Rightarrow>
                              (case memcpy buf1 jlast replacement_cur 0
                                      (int (length replacement_cur)) of
                                 None \<Rightarrow> Inr (UNDEFINED, buf1)
                               | Some buf2 \<Rightarrow>
                                   (case memcpy buf2 (jlast + length replacement_cur) s j
                                           (int (length s) - int j) of
                                      None \<Rightarrow> Inr (UNDEFINED, buf2)
                                    | Some buf3 \<Rightarrow>
                                        (case Rf_mkCharLenCE buf3 buf_need of
                                           None \<Rightarrow> Inr (UNDEFINED, buf3)
                                         | Some x \<Rightarrow> Inr (x, buf3)))))))
      | _ \<Rightarrow> Inr (NA_STRING, buf))"




section \<open>Auxiliary definitions\<close>

text \<open>Under validity, the scanned triples tile the bytes from the cursor to the end.\<close>

fun chain :: "nat \<Rightarrow> (UChar32 \<times> nat \<times> nat) list \<Rightarrow> nat \<Rightarrow> bool" where
  "chain j [] e = (j = e)"
| "chain j ((c, a, b) # ts) e = (a = j \<and> a < b \<and> b \<le> e \<and> chain b ts e)"

text \<open>
  The 1-based indices of the code points of a scan that are in the class, counted on
  from \<open>k\<close>, and the byte spans of these code points.
\<close>

fun match_indices :: "UnicodeSet \<Rightarrow> int \<Rightarrow> (UChar32 \<times> nat \<times> nat) list \<Rightarrow> int list" where
  "match_indices P k [] = []"
| "match_indices P k ((c, a, b) # ts) =
     (if P c then (k + 1) # match_indices P (k + 1) ts else match_indices P (k + 1) ts)"

definition match_spans :: "UnicodeSet \<Rightarrow> (UChar32 \<times> nat \<times> nat) list \<Rightarrow> (nat \<times> nat) list" where
  "match_spans P ts = map snd (filter (\<lambda>t. P (fst t)) ts)"

text \<open>
  The match collector of the specification in its single-match mode: walk the scanner's
  output, fail at the marker of an ill-formed sequence, and stop at the first code point
  in the class; it is given with its position in the walk. No match is \<open>None\<close>.
\<close>

fun first_match ::
  "UnicodeSet \<Rightarrow> int \<Rightarrow> (UChar32 \<times> nat \<times> nat) list
     \<Rightarrow> failure + (int \<times> UChar32 \<times> nat \<times> nat) option" where
  "first_match P k [] = Inr None"
| "first_match P k ((c, a, b) # ts) =
     (if c < 0 then Inl MSG__INVALID_UTF8
      else if P c then Inr (Some (k + 1, c, a, b))
      else first_match P (k + 1) ts)"

text \<open>The matching code points of a string, and the class of the specification's examples.\<close>

definition matches :: "UnicodeSet \<Rightarrow> byte list \<Rightarrow> (UChar32 \<times> nat \<times> nat) list" where
  "matches P s = filter (\<lambda>t. P (fst t)) (scan_forward s 0)"

definition vowel :: UnicodeSet where
  "vowel c = (c = 0x61 \<or> c = 0x65 \<or> c = 0x69 \<or> c = 0x6F \<or> c = 0x75)"

text \<open>
  The reference for the mode ``last'', in the specification's words: scan backward from
  the end and return on the first match found. For replacing, the span found is
  substituted by the replacement. For locating, the reference gives a code point, and a
  reported index agrees with it when it is the index of that code point; no match and
  failure have to coincide.
\<close>

definition backward_last_match ::
  "UnicodeSet \<Rightarrow> byte list \<Rightarrow> failure + (int \<times> UChar32 \<times> nat \<times> nat) option" where
  "backward_last_match P s = first_match P 0 (scan_backward s (length s))"

definition replace_last_reference :: "UnicodeSet \<Rightarrow> byte list \<Rightarrow> byte list \<Rightarrow> failure + CHARSXP" where
  "replace_last_reference P s r =
     (case backward_last_match P s of
        Inl e \<Rightarrow> Inl e
      | Inr None \<Rightarrow> Inr (toR s)
      | Inr (Some (n, c, a, b)) \<Rightarrow> Inr (mkChar (take a s @ r @ drop b s)))"

definition locate_last_agrees_backward :: "UnicodeSet \<Rightarrow> byte list \<Rightarrow> bool" where
  "locate_last_agrees_backward P s =
     (case backward_last_match P s of
        Inl e \<Rightarrow> locate_firstlast_row False (Some s, Some P) = Inl e
      | Inr None \<Rightarrow> locate_firstlast_row False (Some s, Some P) = Inr (None, None)
      | Inr (Some (n, t)) \<Rightarrow>
          (case locate_firstlast_row False (Some s, Some P) of
             Inr (Some k, Some l) \<Rightarrow>
               l = k \<and> 1 \<le> k \<and> nat k \<le> length (scan_forward s 0)
                 \<and> scan_forward s 0 ! (nat k - 1) = t
           | _ \<Rightarrow> False))"

text \<open>The element of the result that a row gives, without the scratch buffer.\<close>

definition element :: "failure + CHARSXP \<times> String8buf \<Rightarrow> failure + CHARSXP" where
  "element x = (case x of Inl e \<Rightarrow> Inl e | Inr (y, buf) \<Rightarrow> Inr y)"

text \<open>The string the copy pass is to produce, from \<^verbatim>\<open>jlast\<close> on.\<close>

fun splice :: "byte list \<Rightarrow> byte list \<Rightarrow> nat \<Rightarrow> (nat \<times> nat) list \<Rightarrow> byte list" where
  "splice s r jlast [] = drop jlast s"
| "splice s r jlast ((a, b) # occ) = take (a - jlast) (drop jlast s) @ r @ splice s r b occ"

text \<open>Spans that are non-empty, in increasing order, disjoint and between two offsets.\<close>

fun spans_from :: "nat \<Rightarrow> (nat \<times> nat) list \<Rightarrow> nat \<Rightarrow> bool" where
  "spans_from j [] e = (j \<le> e)"
| "spans_from j ((a, b) # occ) e = (j \<le> a \<and> a < b \<and> spans_from b occ e)"

definition span_bytes :: "(nat \<times> nat) list \<Rightarrow> nat" where
  "span_bytes occ = sum_list (map (\<lambda>(a, b). b - a) occ)"

text \<open>
  What the copy pass has written when it has gone through the spans, and the offset it
  has reached in the string.
\<close>

fun splice_pre :: "byte list \<Rightarrow> byte list \<Rightarrow> nat \<Rightarrow> (nat \<times> nat) list \<Rightarrow> byte list" where
  "splice_pre s r jlast [] = []"
| "splice_pre s r jlast ((a, b) # occ) = take (a - jlast) (drop jlast s) @ r @ splice_pre s r b occ"

fun span_end :: "nat \<Rightarrow> (nat \<times> nat) list \<Rightarrow> nat" where
  "span_end jlast [] = jlast"
| "span_end jlast ((a, b) # occ) = span_end b occ"

text \<open>The bytes of the code points that are not in the class.\<close>

definition kept :: "UnicodeSet \<Rightarrow> byte list \<Rightarrow> (UChar32 \<times> nat \<times> nat) list \<Rightarrow> byte list" where
  "kept P s ts = concat (map (\<lambda>(c, a, b). if P c then [] else take (b - a) (drop a s)) ts)"

text \<open>The runs that \<^verbatim>\<open>stri_locate_all_charclass\<close> puts into the matrix of a row.\<close>

definition locate_runs :: "bool \<Rightarrow> int list \<Rightarrow> (int \<times> int) list" where
  "locate_runs merge_cur occurrences =
     (if merge_cur \<and> length occurrences > 1 then do_merge occurrences
      else map (\<lambda>k. (k, k)) occurrences)"

definition matrix_of :: "(int \<times> int) list \<Rightarrow> int_matrix" where
  "matrix_of runs = (if runs = [] then notfound else map (\<lambda>(f, t). (Some f, Some t)) runs)"

text \<open>The code point indices that runs cover, and the bytes that spans cover.\<close>

definition covered_indices :: "(int \<times> int) list \<Rightarrow> int set" where
  "covered_indices runs = (\<Union>(f, t)\<in>set runs. {f..t})"


text \<open>The byte offsets at which the code point with a given (1-based) index starts and ends.\<close>

definition cp_start :: "byte list \<Rightarrow> int \<Rightarrow> nat" where
  "cp_start s k = fst (snd (scan_forward s 0 ! nat (k - 1)))"

definition cp_end :: "byte list \<Rightarrow> int \<Rightarrow> nat" where
  "cp_end s k = snd (snd (scan_forward s 0 ! nat (k - 1)))"

text \<open>Two functions give the start and the end of the code points of a scan, counted on from \<open>k\<close>.\<close>

fun coherent :: "(int \<Rightarrow> nat) \<Rightarrow> (int \<Rightarrow> nat) \<Rightarrow> int \<Rightarrow> (UChar32 \<times> nat \<times> nat) list \<Rightarrow> bool" where
  "coherent st en k [] = True"
| "coherent st en k ((c, a, b) # ts) = (st (k + 1) = a \<and> en (k + 1) = b \<and> coherent st en (k + 1) ts)"
section \<open>Properties of the scanner and of the loops\<close>

declare scan_forward.simps [simp del] scan_backward.simps [simp del]
  locate_firstlast_loop.simps [simp del] locate_all_loop.simps [simp del]
  collect_occurrences.simps [simp del] search_first.simps [simp del] search_last.simps [simp del]

lemma U8_NEXT_valid:
  assumes u: "U8_NEXT s j n = (c, j')" and c: "0 \<le> c" and n: "n \<le> length s"
  shows "j < j' \<and> j' \<le> n \<and> seq_cp (map unat (take (j' - j) (drop j s))) = Some c"
proof -
  define w where "w = map unat (take (n - j) (drop j s))"
  have uw: "U8_NEXT s j n = (case w of [] \<Rightarrow> (- 1, j + 1)
      | a # v \<Rightarrow> (case seq_cp (take (lead_len a) (a # v)) of Some c \<Rightarrow> (c, j + lead_len a)
           | None \<Rightarrow> (- 1, j + 1)))"
    unfolding U8_NEXT_def w_def ..
  from u c uw obtain a v where w: "w = a # v"
    by (cases w) auto
  from u c uw w have q: "seq_cp (take (lead_len a) w) = Some c" and j': "j' = j + lead_len a"
    by (auto split: option.splits)
  from seq_cp_lead_len [OF q] seq_cp_length [OF q] w
  have len: "length (take (lead_len a) w) = lead_len a" and pos: "1 \<le> lead_len a"
    by (cases "lead_len a"; simp)+
  then have le: "lead_len a \<le> length w" by simp
  have lw: "length w = min (length s - j) (n - j)" by (simp add: w_def)
  from le lw n pos have b: "j + lead_len a \<le> n" by arith
  have "take (lead_len a) w = map unat (take (lead_len a) (drop j s))"
    using le lw by (simp add: w_def take_map min_def split: if_splits)
  with q j' pos b show ?thesis by simp
qed

lemma takeWhile_trail_seq:
  "seq_cp q = Some c \<Longrightarrow> Suc (length (takeWhile is_trail (rev q @ r))) = length q"
  by (induction q rule: seq_cp.induct) (simp_all add: is_trail_def split: if_splits)

lemma back_len_seq: "seq_cp q = Some c \<Longrightarrow> back_len (p @ q) = length q"
  using takeWhile_trail_seq [of q c "rev p"] seq_cp_length [of q c]
  by (simp add: back_len_def)

lemma U8_PREV_valid:
  assumes q: "seq_cp (map unat (take (j' - j) (drop j s))) = Some c"
    and j: "j < j'" and n: "j' \<le> length s"
  shows "U8_PREV s 0 j' = (c, j)"
proof -
  define p where "p = map unat (take j s)"
  define w where "w = map unat (take (j' - j) (drop j s))"
  have "take j' s = take j s @ take (j' - j) (drop j s)"
    using j by (metis le_add_diff_inverse less_imp_le take_add)
  then have pw: "map unat (drop 0 (take j' s)) = p @ w" by (simp add: p_def w_def)
  have lw: "length w = j' - j" using n j by (simp add: w_def)
  from q have bl: "back_len (p @ w) = length w" unfolding w_def [symmetric] by (rule back_len_seq)
  show ?thesis
    unfolding U8_PREV_def Let_def pw bl using q lw j by (simp add: w_def [symmetric])
qed


lemma scan_forward_end: "\<not> j < length s \<Longrightarrow> scan_forward s j = []"
  by (subst scan_forward.simps) simp

lemma scan_forward_step:
  "j < length s \<Longrightarrow> U8_NEXT s j (length s) = (c, j') \<Longrightarrow>
     scan_forward s j = (c, j, j') # (if c < 0 then [] else scan_forward s j')"
  by (subst scan_forward.simps) simp

lemma scan_backward_end: "\<not> 0 < i \<Longrightarrow> scan_backward s i = []"
  by (subst scan_backward.simps) simp

lemma scan_backward_step:
  "0 < i \<Longrightarrow> U8_PREV s 0 i = (c, i') \<Longrightarrow>
     scan_backward s i = (c, i', i) # (if c < 0 then [] else scan_backward s i')"
  by (subst scan_backward.simps) simp


lemma valid_cp_simp [simp]: "valid_cp (c, a, b) = (0 \<le> c)"
  by (simp add: valid_cp_def)

lemma scan_forward_Nil: "scan_forward s j = [] \<Longrightarrow> \<not> j < length s"
  by (subst (asm) scan_forward.simps) (simp split: if_splits prod.splits)

lemma scan_forward_Cons:
  "scan_forward s j = (c, a, b) # ts \<Longrightarrow>
     j < length s \<and> a = j \<and> U8_NEXT s j (length s) = (c, b)
       \<and> ts = (if c < 0 then [] else scan_forward s b)"
  by (subst (asm) scan_forward.simps) (simp split: if_splits prod.splits)

lemma scan_forward_Cons_valid:
  assumes "scan_forward s j = (c, a, b) # ts" and "0 \<le> c"
  shows "j < length s \<and> a = j \<and> j < b \<and> b \<le> length s \<and> U8_NEXT s j (length s) = (c, b)
       \<and> scan_forward s b = ts \<and> seq_cp (map unat (take (b - j) (drop j s))) = Some c"
proof -
  from scan_forward_Cons [OF assms(1)] assms(2)
  have 1: "j < length s" "a = j" "U8_NEXT s j (length s) = (c, b)" "scan_forward s b = ts"
    by simp_all
  from U8_NEXT_valid [OF 1(3) assms(2)] 1 show ?thesis by simp
qed

lemma scan_forward_chain:
  "scan_forward s j = ts \<Longrightarrow> list_all valid_cp ts \<Longrightarrow> j \<le> length s \<Longrightarrow>
     chain j ts (length s)"
proof (induction ts arbitrary: j)
  case Nil
  from scan_forward_Nil [OF Nil(1)] Nil(3) show ?case by simp
next
  case (Cons t ts)
  obtain c a b where t: "t = (c, a, b)" by (cases t)
  from Cons.prems t have c: "0 \<le> c" and v: "list_all valid_cp ts" by simp_all
  from scan_forward_Cons_valid [OF Cons.prems(1) [unfolded t] c]
  have 1: "a = j" "j < b" "b \<le> length s" "scan_forward s b = ts" by simp_all
  from Cons.IH [OF 1(4) v 1(3)] 1 t show ?case by simp
qed

lemma scan_symmetry_from:
  "scan_forward s j = ts \<Longrightarrow> list_all valid_cp ts \<Longrightarrow> j \<le> length s \<Longrightarrow>
     scan_backward s (length s) = rev ts @ scan_backward s j"
proof (induction ts arbitrary: j)
  case Nil
  from scan_forward_Nil [OF Nil(1)] Nil(3) show ?case by simp
next
  case (Cons t ts)
  obtain c a b where t: "t = (c, a, b)" by (cases t)
  from Cons.prems t have c: "0 \<le> c" and v: "list_all valid_cp ts" by simp_all
  from scan_forward_Cons_valid [OF Cons.prems(1) [unfolded t] c]
  have 1: "a = j" "j < b" "b \<le> length s" "scan_forward s b = ts"
    and q: "seq_cp (map unat (take (b - j) (drop j s))) = Some c" by simp_all
  have p: "U8_PREV s 0 b = (c, j)" by (rule U8_PREV_valid [OF q 1(2) 1(3)])
  from 1 have "0 < b" by simp
  from scan_backward_step [OF this p] c
  have sb: "scan_backward s b = (c, j, b) # scan_backward s j" by simp
  from Cons.IH [OF 1(4) v 1(3)] sb 1 t show ?case by simp
qed

lemma scan_symmetry: "well_formed s \<Longrightarrow> scan_backward s (length s) = rev (scan_forward s 0)"
  using scan_symmetry_from [of s 0] by (simp add: well_formed_def scan_backward_end)


lemma locate_all_loop_scan:
  "scan_forward s j = ts \<Longrightarrow>
     locate_all_loop P s j k occ =
       (if list_all valid_cp ts then Inr (occ @ match_indices P k ts) else Inl MSG__INVALID_UTF8)"
proof (induction ts arbitrary: j k occ)
  case Nil
  from scan_forward_Nil [OF Nil] show ?case by (subst locate_all_loop.simps) simp
next
  case (Cons t ts)
  obtain c a b where t: "t = (c, a, b)" by (cases t)
  from scan_forward_Cons [OF Cons.prems [unfolded t]]
  have 1: "j < length s" "U8_NEXT s j (length s) = (c, b)"
    "ts = (if c < 0 then [] else scan_forward s b)" by simp_all
  show ?case
  proof (cases "c < 0")
    case True
    with 1 t show ?thesis by (subst locate_all_loop.simps) simp
  next
    case False
    with 1 have "scan_forward s b = ts" by simp
    note IH = Cons.IH [OF this]
    from False 1 t show ?thesis by (subst locate_all_loop.simps) (simp add: IH)
  qed
qed

lemma locate_last_loop_scan:
  "scan_forward s j = ts \<Longrightarrow>
     locate_firstlast_loop P False s j k ret =
       (if list_all valid_cp ts
        then Inr (if match_indices P k ts = [] then ret else Some (last (match_indices P k ts)))
        else Inl MSG__INVALID_UTF8)"
proof (induction ts arbitrary: j k ret)
  case Nil
  from scan_forward_Nil [OF Nil] show ?case by (subst locate_firstlast_loop.simps) simp
next
  case (Cons t ts)
  obtain c a b where t: "t = (c, a, b)" by (cases t)
  from scan_forward_Cons [OF Cons.prems [unfolded t]]
  have 1: "j < length s" "U8_NEXT s j (length s) = (c, b)"
    "ts = (if c < 0 then [] else scan_forward s b)" by simp_all
  show ?case
  proof (cases "c < 0")
    case True
    with 1 t show ?thesis by (subst locate_firstlast_loop.simps) simp
  next
    case False
    with 1 have "scan_forward s b = ts" by simp
    note IH = Cons.IH [OF this]
    from False 1 t show ?thesis by (subst locate_firstlast_loop.simps) (simp add: IH)
  qed
qed

lemma locate_first_loop_scan:
  "scan_forward s j = ts \<Longrightarrow>
     locate_firstlast_loop P True s j k ret =
       (case first_match P k ts of
          Inl e \<Rightarrow> Inl e
        | Inr None \<Rightarrow> Inr ret
        | Inr (Some (i, c, a, b)) \<Rightarrow> Inr (Some i))"
proof (induction ts arbitrary: j k ret)
  case Nil
  from scan_forward_Nil [OF Nil] show ?case by (subst locate_firstlast_loop.simps) simp
next
  case (Cons t ts)
  obtain c a b where t: "t = (c, a, b)" by (cases t)
  from scan_forward_Cons [OF Cons.prems [unfolded t]]
  have 1: "j < length s" "U8_NEXT s j (length s) = (c, b)"
    "ts = (if c < 0 then [] else scan_forward s b)" by simp_all
  show ?case
  proof (cases "c < 0")
    case True
    with 1 t show ?thesis by (subst locate_firstlast_loop.simps) simp
  next
    case False
    with 1 have "scan_forward s b = ts" by simp
    note IH = Cons.IH [OF this]
    from False 1 t show ?thesis by (subst locate_firstlast_loop.simps) (simp add: IH)
  qed
qed

lemma collect_occurrences_scan:
  "scan_forward s j = ts \<Longrightarrow>
     collect_occurrences P m s j j occ sb =
       (if list_all valid_cp ts
        then Inr (foldl (\<lambda>occ (a, b). push_occurrence m occ a b) occ (match_spans P ts),
                  sb + sum_list (map (\<lambda>(a, b). b - a) (match_spans P ts)))
        else Inl MSG__INVALID_UTF8)"
proof (induction ts arbitrary: j occ sb)
  case Nil
  from scan_forward_Nil [OF Nil] show ?case
    by (subst collect_occurrences.simps) (simp add: match_spans_def)
next
  case (Cons t ts)
  obtain c a b where t: "t = (c, a, b)" by (cases t)
  from scan_forward_Cons [OF Cons.prems [unfolded t]]
  have 1: "j < length s" "a = j" "U8_NEXT s j (length s) = (c, b)"
    "ts = (if c < 0 then [] else scan_forward s b)" by simp_all
  show ?case
  proof (cases "c < 0")
    case True
    with 1 t show ?thesis by (subst collect_occurrences.simps) simp
  next
    case False
    with 1 have "scan_forward s b = ts" by simp
    note IH = Cons.IH [OF this]
    from False 1 t show ?thesis
      by (subst collect_occurrences.simps) (simp add: IH match_spans_def)
  qed
qed

lemma search_first_scan:
  "scan_forward s j = ts \<Longrightarrow> j \<le> length s \<Longrightarrow>
     search_first P s j j =
       (case first_match P k ts of
          Inl e \<Rightarrow> Inl e
        | Inr None \<Rightarrow> Inr (length s, length s)
        | Inr (Some (i, c, a, b)) \<Rightarrow> Inr (b, a))"
proof (induction ts arbitrary: j k)
  case Nil
  from scan_forward_Nil [OF Nil(1)] Nil(2) show ?case by (subst search_first.simps) simp
next
  case (Cons t ts)
  obtain c a b where t: "t = (c, a, b)" by (cases t)
  from scan_forward_Cons [OF Cons.prems(1) [unfolded t]]
  have 1: "j < length s" "a = j" "U8_NEXT s j (length s) = (c, b)"
    "ts = (if c < 0 then [] else scan_forward s b)" by simp_all
  show ?case
  proof (cases "c < 0")
    case True
    with 1 t show ?thesis by (subst search_first.simps) simp
  next
    case False
    with 1 have sf: "scan_forward s b = ts" by simp
    from False U8_NEXT_valid [OF 1(3)] have "b \<le> length s" by simp
    note IH = Cons.IH [OF sf this, of "k + 1"]
    from False 1 t show ?thesis by (subst search_first.simps) (simp add: IH)
  qed
qed

lemma scan_backward_Nil: "scan_backward s i = [] \<Longrightarrow> \<not> 0 < i"
  by (subst (asm) scan_backward.simps) (simp split: if_splits prod.splits)

lemma scan_backward_Cons:
  "scan_backward s i = (c, a, b) # ts \<Longrightarrow>
     0 < i \<and> b = i \<and> U8_PREV s 0 i = (c, a)
       \<and> ts = (if c < 0 then [] else scan_backward s a)"
  by (subst (asm) scan_backward.simps) (simp split: if_splits prod.splits)

lemma search_last_scan:
  "scan_backward s i = ts \<Longrightarrow>
     search_last P s i i =
       (case first_match P k ts of
          Inl e \<Rightarrow> Inl e
        | Inr None \<Rightarrow> Inr (0, 0)
        | Inr (Some (n, c, a, b)) \<Rightarrow> Inr (b, a))"
proof (induction ts arbitrary: i k)
  case Nil
  from scan_backward_Nil [OF Nil(1)] show ?case by (subst search_last.simps) simp
next
  case (Cons t ts)
  obtain c a b where t: "t = (c, a, b)" by (cases t)
  from scan_backward_Cons [OF Cons.prems(1) [unfolded t]]
  have 1: "0 < i" "b = i" "U8_PREV s 0 i = (c, a)"
    "ts = (if c < 0 then [] else scan_backward s a)" by simp_all
  show ?case
  proof (cases "c < 0")
    case True
    with 1 t show ?thesis by (subst search_last.simps) simp
  next
    case False
    with 1 have sf: "scan_backward s a = ts" by simp
    note IH = Cons.IH [OF sf, of "k + 1"]
    from False 1 t show ?thesis by (subst search_last.simps) (simp add: IH)
  qed
qed


lemma match_indices_length:
  "length (match_indices P k ts) = length (filter (\<lambda>t. P (fst t)) ts)"
  by (induction ts arbitrary: k) auto

lemma match_indices_Nil: "(match_indices P k ts = []) = (filter (\<lambda>t. P (fst t)) ts = [])"
  using match_indices_length [of P k ts] by (metis length_0_conv)

lemma first_match_none:
  "list_all valid_cp ts \<Longrightarrow> filter (\<lambda>t. P (fst t)) ts = [] \<Longrightarrow> first_match P k ts = Inr None"
  by (induction ts arbitrary: k) (auto split: if_splits)

lemma first_match_some:
  "list_all valid_cp ts \<Longrightarrow> filter (\<lambda>t. P (fst t)) ts \<noteq> [] \<Longrightarrow>
     \<exists>c a b. first_match P k ts = Inr (Some (hd (match_indices P k ts), c, a, b))
        \<and> (c, a, b) = hd (filter (\<lambda>t. P (fst t)) ts)"
  by (induction ts arbitrary: k) (auto split: if_splits)

lemma list_all_rev_valid: "list_all valid_cp (rev ts) = list_all valid_cp ts"
  by (simp add: list_all_iff)


lemma locate_all_row_wf:
  assumes "well_formed s"
  shows "locate_all_row (Some s, Some P, Some m) =
     Inr (if match_indices P 0 (scan_forward s 0) = [] then notfound
          else if m \<and> length (match_indices P 0 (scan_forward s 0)) > 1
            then map (\<lambda>(f, t). (Some f, Some t)) (do_merge (match_indices P 0 (scan_forward s 0)))
            else map (\<lambda>k. (Some k, Some k)) (match_indices P 0 (scan_forward s 0)))"
  using assms locate_all_loop_scan [where s = s and j = 0 and P = P and k = 0 and occ = "[]", OF refl]
  by (simp add: locate_all_row_def well_formed_def)

lemma locate_last_row_wf:
  assumes "well_formed s"
  shows "locate_firstlast_row False (Some s, Some P) =
     (if match_indices P 0 (scan_forward s 0) = [] then Inr (None, None)
      else Inr (Some (last (match_indices P 0 (scan_forward s 0))),
                Some (last (match_indices P 0 (scan_forward s 0)))))"
  using assms locate_last_loop_scan [where s = s and j = 0 and P = P and k = 0 and ret = None, OF refl]
  by (simp add: locate_firstlast_row_def well_formed_def)

lemma locate_first_row_wf:
  assumes "well_formed s"
  shows "locate_firstlast_row True (Some s, Some P) =
     (if match_indices P 0 (scan_forward s 0) = [] then Inr (None, None)
      else Inr (Some (hd (match_indices P 0 (scan_forward s 0))),
                Some (hd (match_indices P 0 (scan_forward s 0)))))"
proof (cases "filter (\<lambda>t. P (fst t)) (scan_forward s 0) = []")
  case True
  from assms have v: "list_all valid_cp (scan_forward s 0)" by (simp add: well_formed_def)
  from first_match_none [OF v True, of 0] True locate_first_loop_scan [where s = s and j = 0 and P = P and k = 0 and ret = None, OF refl]
  show ?thesis by (simp add: locate_firstlast_row_def match_indices_Nil)
next
  case False
  from assms have v: "list_all valid_cp (scan_forward s 0)" by (simp add: well_formed_def)
  from first_match_some [OF v False, of 0] obtain c a b where
    "first_match P 0 (scan_forward s 0) = Inr (Some (hd (match_indices P 0 (scan_forward s 0)), c, a, b))"
    by blast
  with False locate_first_loop_scan [where s = s and j = 0 and P = P and k = 0 and ret = None, OF refl]
  show ?thesis by (simp add: locate_firstlast_row_def match_indices_Nil)
qed

lemma merge_seq_hd:
  "acc \<noteq> [] \<Longrightarrow> merge_seq acc c \<noteq> [] \<and> fst (hd (merge_seq acc c)) = fst (hd acc)"
  by (cases acc rule: rev_cases; cases "butlast acc") (auto simp: merge_seq_def hd_append)

lemma foldl_merge_seq_hd:
  "acc \<noteq> [] \<Longrightarrow> foldl merge_seq acc xs \<noteq> [] \<and> fst (hd (foldl merge_seq acc xs)) = fst (hd acc)"
proof (induction xs arbitrary: acc)
  case Nil
  then show ?case by simp
next
  case (Cons x xs)
  from merge_seq_hd [OF Cons.prems, of x] Cons.IH [of "merge_seq acc x"] show ?case by simp
qed

lemma do_merge_hd: "xs \<noteq> [] \<Longrightarrow> do_merge xs \<noteq> [] \<and> fst (hd (do_merge xs)) = hd xs"
  using foldl_merge_seq_hd [of "[(hd xs, hd xs)]" "tl xs"] by (cases xs) simp_all

lemma resize_length: "len \<le> int (length (resize mem buf len))"
  by (simp add: resize_def)

lemma memcpy_frontier:
  assumes "0 \<le> n" and "nat n \<le> length rest" and "off + nat n \<le> length src"
  shows "memcpy (w @ rest) (length w) src off n
           = Some ((w @ take (nat n) (drop off src)) @ drop (nat n) rest)"
  using assms by (simp add: memcpy_def)

lemma Rf_mkCharLenCE_prefix:
  "int (length out) = len \<Longrightarrow> Rf_mkCharLenCE (out @ rest) len = Some (mkChar out)"
  by (auto simp: Rf_mkCharLenCE_def)

lemma checked_Some: "checked f a b = Some c \<Longrightarrow> c = f a b"
  by (simp add: checked_def split: if_splits)

lemma checked_fits: "representable (f a b) \<Longrightarrow> checked f a b = Some (f a b)"
  by (simp add: checked_def)

lemma buf_need_all_Some:
  "buf_need_all s r occ sb = Some N \<Longrightarrow>
     N = int (length s) + int (length occ) * int (length r) - int sb"
  by (auto simp: buf_need_all_def split: option.splits dest!: checked_Some)

lemma buf_need_all_fits:
  assumes "int (length s) + int (length occ) * int (length r) \<le> INT_MAX" and "sb \<le> length s"
  shows "buf_need_all s r occ sb
       = Some (int (length s) + int (length occ) * int (length r) - int sb)"
proof -
  define p where "p = int (length occ) * int (length r)"
  have p0: "0 \<le> p" by (simp add: p_def)
  from assms have fit: "int (length s) + p \<le> INT_MAX" by (simp add: p_def)
  from fit assms(2) p0 have 1: "representable p" "representable (int (length s) + p)"
    "representable (int (length s) + p - int sb)"
    by (simp_all add: representable_def INT_MIN_def)
  from checked_fits [of times, OF 1(1) [unfolded p_def]] checked_fits [of plus, OF 1(2)]
    checked_fits [of minus, OF 1(3)]
  show ?thesis by (simp add: buf_need_all_def p_def)
qed

lemma buf_need_all_empty:
  "sb \<le> length s \<Longrightarrow> buf_need_all s [] occ sb = Some (int (length s) - int sb)"
  by (auto simp: buf_need_all_def checked_def representable_def INT_MIN_def INT_MAX_def)

lemma buf_need_one_Some:
  "buf_need_one s r j jlast = Some N \<Longrightarrow>
     N = int (length s) + int (length r) - (int j - int jlast)"
  by (auto simp: buf_need_one_def split: option.splits dest!: checked_Some)

lemma buf_need_one_fits:
  assumes "int (length s) + int (length r) \<le> INT_MAX" and "jlast \<le> j" and "j \<le> length s"
  shows "buf_need_one s r j jlast
       = Some (int (length s) + int (length r) - (int j - int jlast))"
proof -
  from assms have 1: "representable (int (length s) + int (length r))"
    "representable (int j - int jlast)"
    "representable (int (length s) + int (length r) - (int j - int jlast))"
    by (simp_all add: representable_def INT_MIN_def)
  from checked_fits [of plus, OF 1(1)] checked_fits [of minus, OF 1(2)]
    checked_fits [of minus, OF 1(3)]
  show ?thesis by (simp add: buf_need_one_def)
qed

lemma replace_firstlast_row_found:
  assumes srch: "(if first then search_first P s 0 0
                  else search_last P s (length s) (length s)) = Inr (j, jlast)"
    and lt: "jlast < j" and le: "j \<le> length s"
    and bn: "buf_need_one s r j jlast = Some N"
  shows "replace_firstlast_row first mem buf (Some s, Some P, Some r) =
           Inr (mkChar (take jlast s @ r @ drop j s),
                (take jlast s @ r @ drop j s) @ drop (nat N) (resize mem buf N))"
proof -
  define buf0 where "buf0 = resize mem buf N"
  have N: "N = int jlast + int (length r) + int (length s - j)"
    using lt le buf_need_one_Some [OF bn] by simp
  have len0: "nat N \<le> length buf0"
    using resize_length [of N mem buf] by (simp add: buf0_def)
  have 1: "memcpy buf0 0 s 0 (int jlast) = Some (take jlast s @ drop jlast buf0)"
    using memcpy_frontier [of "int jlast" buf0 0 s "[]"] len0 N lt le by simp
  have 2: "memcpy (take jlast s @ drop jlast buf0) jlast r 0 (int (length r))
      = Some ((take jlast s @ r) @ drop (length r) (drop jlast buf0))"
    using memcpy_frontier [of "int (length r)" "drop jlast buf0" 0 r "take jlast s"] len0 N lt le
    by simp
  have 3: "memcpy ((take jlast s @ r) @ drop (length r) (drop jlast buf0)) (jlast + length r) s j
        (int (length s) - int j)
      = Some (((take jlast s @ r) @ drop j s)
              @ drop (length s - j) (drop (length r) (drop jlast buf0)))"
    using memcpy_frontier [of "int (length s) - int j" "drop (length r) (drop jlast buf0)" j s
        "take jlast s @ r"] len0 N lt le
    by (simp add: nat_diff_distrib')
  have out: "int (length ((take jlast s @ r) @ drop j s)) = N"
    using N lt le by simp
  have nN: "nat N = length s - j + (length r + jlast)"
    using N by simp
  from lt have ne: "j \<noteq> jlast" by simp
  show ?thesis
    using srch ne bn 1 2 3 Rf_mkCharLenCE_prefix [OF out]
    by (simp add: replace_firstlast_row_def Let_def buf0_def [symmetric] nN)
qed

lemma backward_match_bounds:
  "scan_backward s i = ts \<Longrightarrow> first_match P k ts = Inr (Some (n, c, a, b)) \<Longrightarrow> a < b \<and> b \<le> i"
proof (induction ts arbitrary: i k)
  case Nil
  then show ?case by simp
next
  case (Cons t ts)
  obtain c' a' b' where t: "t = (c', a', b')" by (cases t)
  from scan_backward_Cons [OF Cons.prems(1) [unfolded t]]
  have 1: "0 < i" "b' = i" "U8_PREV s 0 i = (c', a')"
    "ts = (if c' < 0 then [] else scan_backward s a')" by simp_all
  from U8_PREV_retreat [OF 1(3) 1(1)] have lt: "a' < i" .
  show ?case
  proof (cases "P c'")
    case True
    with Cons.prems(2) t 1 lt show ?thesis by (simp split: if_splits)
  next
    case False
    with Cons.prems(2) t have nn: "\<not> c' < 0"
      and fm: "first_match P (k + 1) ts = Inr (Some (n, c, a, b))"
      by (simp_all split: if_splits)
    from nn 1 have "scan_backward s a' = ts" by simp
    from Cons.IH [OF this fm] lt show ?thesis by simp
  qed
qed

lemma search_last_reference:
  "search_last P s (length s) (length s)
     = (case backward_last_match P s of
          Inl e \<Rightarrow> Inl e
        | Inr None \<Rightarrow> Inr (0, 0)
        | Inr (Some (n, c, a, b)) \<Rightarrow> Inr (b, a))"
  using search_last_scan [where P = P and k = 0 and s = s and i = "length s", OF refl]
  by (simp add: backward_last_match_def)

lemma replace_last_row_reference:
  assumes fit: "int (length s) + int (length r) \<le> INT_MAX"
  shows "element (replace_firstlast_row False mem buf (Some s, Some P, Some r))
     = replace_last_reference P s r"
proof -
  note sl = search_last_scan [where P = P and k = 0 and s = s and i = "length s", OF refl]
  show ?thesis
  proof (cases "backward_last_match P s")
    case (Inl e)
    with sl show ?thesis
      by (simp add: element_def replace_last_reference_def replace_firstlast_row_def
          backward_last_match_def)
  next
    case (Inr m)
    show ?thesis
    proof (cases m)
      case None
      with Inr sl show ?thesis
        by (simp add: element_def replace_last_reference_def replace_firstlast_row_def
            backward_last_match_def)
    next
      case (Some q)
      obtain n c a b where q: "q = (n, c, a, b)" by (cases q)
      from Inr Some q have fm: "first_match P 0 (scan_backward s (length s)) = Inr (Some (n, c, a, b))"
        by (simp add: backward_last_match_def)
      from backward_match_bounds [OF refl fm] have b: "a < b" "b \<le> length s" by simp_all
      from b have ab: "a \<le> b" by simp
      from sl fm have "(if False then search_first P s 0 0
          else search_last P s (length s) (length s)) = Inr (b, a)" by simp
      from replace_firstlast_row_found [OF this b buf_need_one_fits [OF fit ab b(2)]] Inr Some q
      show ?thesis
        by (simp add: element_def replace_last_reference_def)
    qed
  qed
qed

lemma first_match_rev:
  "list_all valid_cp ts \<Longrightarrow>
     \<exists>n. first_match P k (rev ts) =
       (if filter (\<lambda>t. P (fst t)) ts = [] then Inr None
        else Inr (Some (n, last (filter (\<lambda>t. P (fst t)) ts))))"
proof (induction ts arbitrary: k rule: rev_induct)
  case Nil
  then show ?case by simp
next
  case (snoc t ts)
  obtain c a b where t: "t = (c, a, b)" by (cases t)
  from snoc.prems t have c: "\<not> c < 0" and v: "list_all valid_cp ts" by simp_all
  show ?case
  proof (cases "P c")
    case True
    with c t show ?thesis by simp
  next
    case False
    from snoc.IH [OF v, of "k + 1"] False c t show ?thesis by auto
  qed
qed

lemma last_match_index_nth:
  "match_indices P k ts \<noteq> [] \<Longrightarrow>
     k < last (match_indices P k ts) \<and> last (match_indices P k ts) \<le> k + int (length ts)
       \<and> ts ! nat (last (match_indices P k ts) - k - 1) = last (filter (\<lambda>t. P (fst t)) ts)"
proof (induction ts arbitrary: k)
  case Nil
  then show ?case by simp
next
  case (Cons t ts)
  obtain c a b where t: "t = (c, a, b)" by (cases t)
  show ?case
  proof (cases "match_indices P (k + 1) ts = []")
    case True
    with Cons.prems t have "P c" by (simp split: if_splits)
    moreover from True have "filter (\<lambda>t. P (fst t)) ts = []" by (simp add: match_indices_Nil)
    ultimately show ?thesis using True t by simp
  next
    case False
    define x where "x = last (match_indices P (k + 1) ts)"
    from Cons.IH [OF False] have ih: "k + 1 < x" "x \<le> k + 1 + int (length ts)"
      "ts ! nat (x - (k + 1) - 1) = last (filter (\<lambda>t. P (fst t)) ts)"
      by (simp_all add: x_def)
    from False have lx: "last (match_indices P k (t # ts)) = x" by (simp add: t x_def)
    from False have fne: "filter (\<lambda>t. P (fst t)) ts \<noteq> []" by (simp add: match_indices_Nil)
    from ih(1) have "nat (x - k - 1) = Suc (nat (x - (k + 1) - 1))" by simp
    with ih fne show ?thesis unfolding lx by simp
  qed
qed

lemma locate_last_agrees_wf:
  assumes wf: "well_formed s"
  shows "locate_last_agrees_backward P s"
proof -
  define ts where "ts = scan_forward s 0"
  from wf have v: "list_all valid_cp ts" by (simp add: well_formed_def ts_def)
  from first_match_rev [OF v, of P 0] obtain n where
    fm: "first_match P 0 (rev ts) = (if filter (\<lambda>t. P (fst t)) ts = [] then Inr None
        else Inr (Some (n, last (filter (\<lambda>t. P (fst t)) ts))))" by blast
  have blm: "backward_last_match P s = first_match P 0 (rev ts)"
    by (simp add: backward_last_match_def scan_symmetry [OF wf] ts_def)
  show ?thesis
  proof (cases "filter (\<lambda>t. P (fst t)) ts = []")
    case True
    then have "match_indices P 0 ts = []" by (simp add: match_indices_Nil)
    with True fm blm locate_last_row_wf [OF wf, of P] show ?thesis
      by (simp add: locate_last_agrees_backward_def ts_def)
  next
    case False
    then have ne: "match_indices P 0 ts \<noteq> []" by (simp add: match_indices_Nil)
    define x where "x = last (match_indices P 0 ts)"
    from last_match_index_nth [OF ne] have x: "0 < x" "x \<le> int (length ts)"
      "ts ! nat (x - 1) = last (filter (\<lambda>t. P (fst t)) ts)" by (simp_all add: x_def)
    from x(1) have nx: "nat x - Suc 0 = nat (x - 1)" by arith
    from x(1,2) have bx: "1 \<le> x" "nat x \<le> length ts" by arith+
    from locate_last_row_wf [OF wf, of P] ne
    have ll: "locate_firstlast_row False (Some s, Some P) = Inr (Some x, Some x)"
      by (simp add: ts_def x_def)
    from False fm blm ll x(3) nx bx show ?thesis
      by (simp add: locate_last_agrees_backward_def ts_def [symmetric])
  qed
qed

lemma spans_from_le: "spans_from j occ e \<Longrightarrow> j \<le> e"
  by (induction j occ e rule: spans_from.induct) auto

lemma spans_from_mono: "spans_from j occ e \<Longrightarrow> e \<le> e' \<Longrightarrow> spans_from j occ e'"
  by (induction occ arbitrary: j) auto

lemma spans_from_snoc:
  "spans_from j (occ @ [(a, b)]) e = (spans_from j occ a \<and> a < b \<and> b \<le> e)"
  by (induction occ arbitrary: j) auto

lemma span_bytes_snoc [simp]: "span_bytes (occ @ [(a, b)]) = span_bytes occ + (b - a)"
  by (simp add: span_bytes_def)

lemma span_bytes_Nil [simp]: "span_bytes [] = 0"
  by (simp add: span_bytes_def)

lemma push_occurrence_spans:
  assumes "spans_from 0 occ a" and "a < b"
  shows "spans_from 0 (push_occurrence m occ a b) b
       \<and> span_bytes (push_occurrence m occ a b) = span_bytes occ + (b - a)"
proof (cases "m \<and> length occ > 0 \<and> snd (last occ) = a")
  case False
  with assms show ?thesis by (auto simp: push_occurrence_def spans_from_snoc)
next
  case True
  then obtain xs f where occ: "occ = xs @ [(f, a)]"
    by (cases occ rule: rev_cases) auto
  with assms have "spans_from 0 xs f" "f < a" by (simp_all add: spans_from_snoc)
  with assms True occ show ?thesis by (simp add: push_occurrence_def spans_from_snoc)
qed

lemma foldl_push_spans:
  "chain j ts e \<Longrightarrow> spans_from 0 occ j \<Longrightarrow>
     spans_from 0 (foldl (\<lambda>occ (a, b). push_occurrence m occ a b) occ (match_spans P ts)) e
     \<and> span_bytes (foldl (\<lambda>occ (a, b). push_occurrence m occ a b) occ (match_spans P ts))
         = span_bytes occ + span_bytes (match_spans P ts)"
proof (induction ts arbitrary: j occ)
  case Nil
  then show ?case by (simp add: match_spans_def)
next
  case (Cons t ts)
  obtain c a b where t: "t = (c, a, b)" by (cases t)
  from Cons.prems t have 1: "a = j" "a < b" "chain b ts e" by simp_all
  show ?case
  proof (cases "P c")
    case True
    from push_occurrence_spans [OF Cons.prems(2) [folded 1(1)] 1(2), of m]
    have p: "spans_from 0 (push_occurrence m occ a b) b"
      "span_bytes (push_occurrence m occ a b) = span_bytes occ + (b - a)" by simp_all
    from Cons.IH [OF 1(3) p(1)] p(2) True t show ?thesis
      by (simp add: match_spans_def span_bytes_def)
  next
    case False
    from spans_from_mono [OF Cons.prems(2), of b] 1 have "spans_from 0 occ b" by simp
    from Cons.IH [OF 1(3) this] False t show ?thesis by (simp add: match_spans_def)
  qed
qed

lemma collect_occurrences_wf:
  assumes "well_formed s" and "collect_occurrences P m s 0 0 [] 0 = Inr (occ, sumbytes)"
  shows "spans_from 0 occ (length s) \<and> sumbytes = span_bytes occ
       \<and> occ = foldl (\<lambda>occ (a, b). push_occurrence m occ a b) [] (match_spans P (scan_forward s 0))"
proof -
  from assms(1) have v: "list_all valid_cp (scan_forward s 0)" by (simp add: well_formed_def)
  from scan_forward_chain [OF refl v] have ch: "chain 0 (scan_forward s 0) (length s)" by simp
  from collect_occurrences_scan [where s = s and j = 0 and P = P and m = m and occ = "[]" and sb = 0,
      OF refl] v assms(2)
  have occ: "occ = foldl (\<lambda>occ (a, b). push_occurrence m occ a b) [] (match_spans P (scan_forward s 0))"
    and sb: "sumbytes = span_bytes (match_spans P (scan_forward s 0))"
    by (simp_all add: span_bytes_def)
  have "spans_from 0 [] 0" by simp
  from foldl_push_spans [OF ch this, of m P] occ sb show ?thesis by simp
qed

lemma collect_occurrences_valid:
  "collect_occurrences P m s 0 0 [] 0 = Inr x \<Longrightarrow> well_formed s"
  using collect_occurrences_scan [where s = s and j = 0 and P = P and m = m and occ = "[]" and sb = 0,
      OF refl]
  by (simp add: well_formed_def split: if_splits)

lemma splice_length:
  "spans_from jlast occ (length s) \<Longrightarrow>
     int (length (splice s r jlast occ))
       = int (length s) - int jlast + int (length occ) * int (length r) - int (span_bytes occ)"
proof (induction occ arbitrary: jlast)
  case Nil
  then show ?case by simp
next
  case (Cons x occ)
  obtain a b where x: "x = (a, b)" by (cases x)
  from Cons.prems x have 1: "jlast \<le> a" "a < b" "spans_from b occ (length s)" by simp_all
  from spans_from_le [OF 1(3)] have "b \<le> length s" .
  with Cons.IH [OF 1(3)] 1 x show ?case
    by (simp add: span_bytes_def algebra_simps)
qed

lemma copy_pass_splice:
  "spans_from jlast occ (length s) \<Longrightarrow> length (splice s r jlast occ) \<le> length rest \<Longrightarrow>
     (case copy_pass s r (w @ rest, length w, jlast) occ of
        None \<Rightarrow> None
      | Some (buf1, curbuf, jl) \<Rightarrow> memcpy buf1 curbuf s jl (int (length s) - int jl))
     = Some ((w @ splice s r jlast occ) @ drop (length (splice s r jlast occ)) rest)"
proof (induction occ arbitrary: jlast w rest)
  case Nil
  then have le: "jlast \<le> length s" by simp
  from Nil have "length s - jlast \<le> length rest" by simp
  with memcpy_frontier [of "int (length s) - int jlast" rest jlast s w] le
  show ?case by (simp add: nat_diff_distrib')
next
  case (Cons x occ)
  obtain a b where x: "x = (a, b)" by (cases x)
  from Cons.prems x have 1: "jlast \<le> a" "a < b" "spans_from b occ (length s)" by simp_all
  from spans_from_le [OF 1(3)] have bl: "b \<le> length s" .
  define gap where "gap = take (a - jlast) (drop jlast s)"
  have lg: "length gap = a - jlast" using 1 bl by (simp add: gap_def)
  from Cons.prems(2) x have len: "length gap + length r + length (splice s r b occ) \<le> length rest"
    by (simp add: gap_def)
  have m1: "memcpy (w @ rest) (length w) s jlast (int a - int jlast)
      = Some ((w @ gap) @ drop (a - jlast) rest)"
    using memcpy_frontier [of "int a - int jlast" rest jlast s w] 1 bl len lg
    by (simp add: nat_diff_distrib' gap_def)
  have m2: "memcpy ((w @ gap) @ drop (a - jlast) rest) (length w + (a - jlast)) r 0 (int (length r))
      = Some (((w @ gap) @ r) @ drop (length r) (drop (a - jlast) rest))"
    using memcpy_frontier [of "int (length r)" "drop (a - jlast) rest" 0 r "w @ gap"] len lg
    by simp
  have cm: "copy_match s r (w @ rest, length w, jlast) (a, b)
      = Some (((w @ gap) @ r) @ drop (length r) (drop (a - jlast) rest),
             length ((w @ gap) @ r), b)"
    using m1 m2 lg by (simp add: copy_match_def)
  have l2: "length (splice s r b occ) \<le> length (drop (length r) (drop (a - jlast) rest))"
    using len lg by simp
  have sx: "splice s r jlast (x # occ) = gap @ r @ splice s r b occ"
    by (simp add: x gap_def)
  have dr: "drop (length (splice s r b occ)) (drop (length r) (drop (a - jlast) rest))
      = drop (length (splice s r jlast (x # occ))) rest"
    unfolding sx drop_drop by (rule arg_cong [where f = "\<lambda>n. drop n rest"]) (simp add: lg)
  have cp: "copy_pass s r (w @ rest, length w, jlast) (x # occ)
      = copy_pass s r (((w @ gap) @ r) @ drop (length r) (drop (a - jlast) rest),
             length ((w @ gap) @ r), b) occ"
    by (simp add: x cm)
  show ?case
    unfolding cp Cons.IH [OF 1(3) l2, of "(w @ gap) @ r"] dr sx by simp
qed

lemma replace_all_row_found:
  assumes wf: "well_formed s"
    and co: "collect_occurrences P m s 0 0 [] 0 = Inr (occ, sumbytes)"
    and ne: "occ \<noteq> []"
    and bn: "buf_need_all s r occ sumbytes = Some N"
  shows "replace_all_row mem buf (Some s, Some P, Some r, Some m) =
           Inr (mkChar (splice s r 0 occ), splice s r 0 occ @ drop (nat N) (resize mem buf N))
       \<and> int (length (splice s r 0 occ)) = N"
proof -
  define buf0 where "buf0 = resize mem buf N"
  from collect_occurrences_wf [OF wf co] have sp: "spans_from 0 occ (length s)"
    and sb: "sumbytes = span_bytes occ" by blast+
  from splice_length [OF sp, where r = r] sb buf_need_all_Some [OF bn]
  have len: "int (length (splice s r 0 occ)) = N" by simp
  from resize_length [of N mem buf] len have l0: "length (splice s r 0 occ) \<le> length buf0"
    by (simp add: buf0_def)
  from len have nN: "nat N = length (splice s r 0 occ)" by simp
  from copy_pass_splice [OF sp l0, where w = "[]"]
  have cp: "(case copy_pass s r (buf0, 0, 0) occ of
        None \<Rightarrow> None
      | Some (buf1, curbuf, jl) \<Rightarrow> memcpy buf1 curbuf s jl (int (length s) - int jl))
     = Some (splice s r 0 occ @ drop (nat N) buf0)" by (simp add: nN)
  from co ne bn cp Rf_mkCharLenCE_prefix [OF len] len show ?thesis
    by (auto simp: replace_all_row_def Let_def buf0_def [symmetric]
        split: option.splits prod.splits)
qed

lemma forward_match_bounds:
  "scan_forward s j = ts \<Longrightarrow> first_match P k ts = Inr (Some (n, c, a, b)) \<Longrightarrow>
     a < b \<and> b \<le> length s"
proof (induction ts arbitrary: j k)
  case Nil
  then show ?case by simp
next
  case (Cons t ts)
  obtain c' a' b' where t: "t = (c', a', b')" by (cases t)
  from Cons.prems(2) t have nn: "0 \<le> c'" by (simp split: if_splits)
  from scan_forward_Cons_valid [OF Cons.prems(1) [unfolded t] nn]
  have 1: "a' = j" "j < b'" "b' \<le> length s" "scan_forward s b' = ts" by simp_all
  show ?case
  proof (cases "P c'")
    case True
    with Cons.prems(2) t 1 nn show ?thesis by (simp split: if_splits)
  next
    case False
    with Cons.prems(2) t nn have "first_match P (k + 1) ts = Inr (Some (n, c, a, b))"
      by (simp split: if_splits)
    from Cons.IH [OF 1(4) this] show ?thesis .
  qed
qed

lemma search_first_bounds:
  assumes "search_first P s 0 0 = Inr (j, jlast)" and "j \<noteq> jlast"
  shows "jlast < j \<and> j \<le> length s"
proof -
  note sf = search_first_scan [where s = s and j = 0 and P = P and k = 0, OF refl]
  show ?thesis
  proof (cases "first_match P 0 (scan_forward s 0)")
    case (Inl e)
    with sf assms show ?thesis by simp
  next
    case (Inr q)
    show ?thesis
    proof (cases q)
      case None
      with Inr sf assms show ?thesis by simp
    next
      case (Some x)
      obtain n c a b where x: "x = (n, c, a, b)" by (cases x)
      from forward_match_bounds [OF refl Inr [unfolded Some x]] sf Inr Some x assms
      show ?thesis by simp
    qed
  qed
qed

lemma search_last_bounds:
  assumes "search_last P s (length s) (length s) = Inr (j, jlast)" and "j \<noteq> jlast"
  shows "jlast < j \<and> j \<le> length s"
proof -
  note sf = search_last_scan [where s = s and i = "length s" and P = P and k = 0, OF refl]
  show ?thesis
  proof (cases "first_match P 0 (scan_backward s (length s))")
    case (Inl e)
    with sf assms show ?thesis by simp
  next
    case (Inr q)
    show ?thesis
    proof (cases q)
      case None
      with Inr sf assms show ?thesis by simp
    next
      case (Some x)
      obtain n c a b where x: "x = (n, c, a, b)" by (cases x)
      from backward_match_bounds [OF refl Inr [unfolded Some x]] sf Inr Some x assms
      show ?thesis by simp
    qed
  qed
qed

lemma replace_firstlast_row_exact:
  assumes "(if first then search_first P s 0 0
            else search_last P s (length s) (length s)) = Inr (j, jlast)" and "j \<noteq> jlast"
    and bn: "buf_need_one s r j jlast = Some N"
  shows "replace_firstlast_row first mem buf (Some s, Some P, Some r) =
           Inr (mkChar (take jlast s @ r @ drop j s),
                (take jlast s @ r @ drop j s) @ drop (nat N) (resize mem buf N))
       \<and> int (length (take jlast s @ r @ drop j s)) = N"
proof -
  have b: "jlast < j \<and> j \<le> length s"
    using assms search_first_bounds [of P s j jlast] search_last_bounds [of P s j jlast]
    by (cases first) simp_all
  with buf_need_one_Some [OF bn] have "int (length (take jlast s @ r @ drop j s)) = N"
    by simp
  with replace_firstlast_row_found [OF assms(1) _ _ bn, of mem buf] b show ?thesis by simp
qed

lemma splice_split: "splice s r jlast occ = splice_pre s r jlast occ @ drop (span_end jlast occ) s"
  by (induction s r jlast occ rule: splice.induct) simp_all

lemma splice_pre_snoc:
  "splice_pre s r jlast (occ @ [(a, b)])
     = splice_pre s r jlast occ
         @ take (a - span_end jlast occ) (drop (span_end jlast occ) s) @ r"
  by (induction s r jlast occ rule: splice_pre.induct) simp_all

lemma span_end_snoc [simp]: "span_end jlast (occ @ [(a, b)]) = b"
  by (induction jlast occ rule: span_end.induct) simp_all

lemma span_end_le: "spans_from jlast occ e \<Longrightarrow> jlast \<le> span_end jlast occ \<and> span_end jlast occ \<le> e"
  by (induction jlast occ e rule: spans_from.induct) auto

lemma take_drop_append:
  "i \<le> j \<Longrightarrow> j \<le> k \<Longrightarrow> take (j - i) (drop i s) @ take (k - j) (drop j s) = take (k - i) (drop i s)"
proof -
  assume ij: "i \<le> j" and jk: "j \<le> k"
  have "take (k - i) (drop i s) = take ((j - i) + (k - j)) (drop i s)" using ij jk by simp
  also have "\<dots> = take (j - i) (drop i s) @ take (k - j) (drop (j - i) (drop i s))"
    by (rule take_add)
  also have "drop (j - i) (drop i s) = drop j s" using ij by simp
  finally show ?thesis by simp
qed

text \<open>The output up to the cursor, with the empty replacement.\<close>

lemma push_occurrence_out:
  assumes sp: "spans_from 0 occ a" and ab: "a < b"
  shows "splice_pre s [] 0 (push_occurrence m occ a b)
       = splice_pre s [] 0 occ @ take (a - span_end 0 occ) (drop (span_end 0 occ) s)
       \<and> span_end 0 (push_occurrence m occ a b) = b"
proof (cases "m \<and> length occ > 0 \<and> snd (last occ) = a")
  case False
  then show ?thesis by (auto simp: push_occurrence_def splice_pre_snoc)
next
  case True
  then obtain xs f where occ: "occ = xs @ [(f, a)]"
    by (cases occ rule: rev_cases) auto
  with True show ?thesis by (simp add: push_occurrence_def splice_pre_snoc)
qed

lemma foldl_push_out:
  "chain j ts e \<Longrightarrow> spans_from 0 occ j \<Longrightarrow>
     splice_pre s [] 0 (foldl (\<lambda>occ (a, b). push_occurrence m occ a b) occ (match_spans P ts))
       @ take (e - span_end 0 (foldl (\<lambda>occ (a, b). push_occurrence m occ a b) occ (match_spans P ts)))
           (drop (span_end 0 (foldl (\<lambda>occ (a, b). push_occurrence m occ a b) occ (match_spans P ts))) s)
     = splice_pre s [] 0 occ @ take (j - span_end 0 occ) (drop (span_end 0 occ) s) @ kept P s ts"
proof (induction ts arbitrary: j occ)
  case Nil
  then show ?case by (simp add: match_spans_def kept_def)
next
  case (Cons t ts)
  obtain c a b where t: "t = (c, a, b)" by (cases t)
  from Cons.prems t have 1: "a = j" "a < b" "chain b ts e" by simp_all
  show ?case
  proof (cases "P c")
    case True
    from push_occurrence_spans [OF Cons.prems(2) [folded 1(1)] 1(2), of m]
    have p: "spans_from 0 (push_occurrence m occ a b) b" by simp
    from push_occurrence_out [OF Cons.prems(2) [folded 1(1)] 1(2), of s m]
    have o: "splice_pre s [] 0 (push_occurrence m occ a b)
       = splice_pre s [] 0 occ @ take (a - span_end 0 occ) (drop (span_end 0 occ) s)"
      "span_end 0 (push_occurrence m occ a b) = b" by simp_all
    from Cons.IH [OF 1(3) p] o True t 1 show ?thesis
      by (simp add: match_spans_def kept_def)
  next
    case False
    from spans_from_mono [OF Cons.prems(2), of b] 1 have sp: "spans_from 0 occ b" by simp
    from span_end_le [OF Cons.prems(2)] have le: "span_end 0 occ \<le> j" by simp
    from take_drop_append [OF le, of b s] 1
    have "take (b - span_end 0 occ) (drop (span_end 0 occ) s)
        = take (j - span_end 0 occ) (drop (span_end 0 occ) s) @ take (b - j) (drop j s)" by simp
    with Cons.IH [OF 1(3) sp] False t 1 show ?thesis
      by (simp add: match_spans_def kept_def)
  qed
qed

lemma foldl_push_Nil:
  "(foldl (\<lambda>occ (a, b). push_occurrence m occ a b) occ xs = []) = (occ = [] \<and> xs = [])"
proof (induction xs arbitrary: occ)
  case Nil
  then show ?case by simp
next
  case (Cons x xs)
  obtain a b where x: "x = (a, b)" by (cases x)
  have "push_occurrence m occ a b \<noteq> []" by (simp add: push_occurrence_def)
  with Cons.IH [of "push_occurrence m occ a b"] x show ?case by simp
qed

lemma replace_all_row_wf:
  assumes wf: "well_formed s"
  shows "element (replace_all_row mem buf (Some s, Some P, Some [], Some m))
       = Inr (if matches P s = [] then toR s else mkChar (kept P s (scan_forward s 0)))"
proof -
  define ts where "ts = scan_forward s 0"
  define occ where "occ = foldl (\<lambda>occ (a, b). push_occurrence m occ a b) [] (match_spans P ts)"
  from wf have v: "list_all valid_cp ts" by (simp add: well_formed_def ts_def)
  from scan_forward_chain [OF refl v [unfolded ts_def]] have ch: "chain 0 ts (length s)"
    by (simp add: ts_def)
  have co: "collect_occurrences P m s 0 0 [] 0 = Inr (occ, span_bytes (match_spans P ts))"
    using collect_occurrences_scan [where s = s and j = 0 and P = P and m = m and occ = "[]" and sb = 0,
      OF refl] v
    by (simp add: ts_def occ_def span_bytes_def)
  have em: "(occ = []) = (matches P s = [])"
    by (simp add: occ_def foldl_push_Nil match_spans_def matches_def ts_def)
  show ?thesis
  proof (cases "occ = []")
    case True
    with co em show ?thesis by (simp add: element_def replace_all_row_def)
  next
    case False
    have s0: "spans_from 0 [] 0" by simp
    from foldl_push_spans [OF ch s0, of m P] have sp: "spans_from 0 occ (length s)"
      by (simp add: occ_def)
    from span_end_le [OF sp] have "span_end 0 occ \<le> length s" by simp
    then have "take (length s - span_end 0 occ) (drop (span_end 0 occ) s) = drop (span_end 0 occ) s"
      by simp
    with foldl_push_out [OF ch s0, of s m P] have sk: "splice s [] 0 occ = kept P s ts"
      by (simp add: splice_split occ_def)
    from collect_occurrences_wf [OF wf co] have sb: "span_bytes (match_spans P ts) = span_bytes occ"
      by simp
    from splice_length [OF sp, where r = "[]"] have "span_bytes occ \<le> length s" by simp
    with sb have "span_bytes (match_spans P ts) \<le> length s" by simp
    from replace_all_row_found [OF wf co False buf_need_all_empty [OF this], of mem buf] sk False em
    show ?thesis
      by (simp add: element_def ts_def)
  qed
qed

lemma locate_all_row_runs:
  assumes "well_formed s"
  shows "locate_all_row (Some s, Some P, Some m)
       = Inr (matrix_of (locate_runs m (match_indices P 0 (scan_forward s 0))))"
proof -
  have "do_merge (match_indices P 0 (scan_forward s 0)) \<noteq> []"
    if "match_indices P 0 (scan_forward s 0) \<noteq> []"
    using do_merge_hd [OF that] by simp
  then show ?thesis
    using locate_all_row_wf [OF assms, of P m]
    by (auto simp: matrix_of_def locate_runs_def)
qed

lemma match_indices_sorted:
  "sorted_wrt (<) (match_indices P k ts) \<and> (\<forall>x\<in>set (match_indices P k ts). k < x)"
proof (induction ts arbitrary: k)
  case Nil
  then show ?case by simp
next
  case (Cons t ts)
  obtain c a b where t: "t = (c, a, b)" by (cases t)
  from Cons.IH [of "k + 1"] t show ?case by (auto simp: less_imp_le)
qed

lemma covered_indices_snoc:
  "covered_indices (ys @ [(f, t)]) = covered_indices ys \<union> {f..t}"
  by (auto simp: covered_indices_def)

lemma merge_seq_good:
  assumes acc: "acc = ys @ [(f, t)]"
    and la: "list_all (\<lambda>(f, t). f \<le> t) acc"
    and su: "successively (\<lambda>(a, b) (c, d). b + 1 < c) acc"
    and lt: "t < x"
  shows "list_all (\<lambda>(f, t). f \<le> t) (merge_seq acc x)
       \<and> successively (\<lambda>(a, b) (c, d). b + 1 < c) (merge_seq acc x)
       \<and> (\<exists>ys' f'. merge_seq acc x = ys' @ [(f', x)])
       \<and> covered_indices (merge_seq acc x) = covered_indices acc \<union> {x}"
proof (cases "t = x - 1")
  case True
  then have m: "merge_seq acc x = ys @ [(f, x)]" by (simp add: merge_seq_def acc)
  from la acc lt have 1: "list_all (\<lambda>(f, t). f \<le> t) (ys @ [(f, x)])" by simp
  from su acc have 2: "successively (\<lambda>(a, b) (c, d). b + 1 < c) (ys @ [(f, x)])"
    by (auto simp: successively_append_iff split: prod.splits)
  from la acc have "f \<le> t" by simp
  with True have "{f..x} = {f..t} \<union> {x}" by auto
  then have 3: "covered_indices (ys @ [(f, x)]) = covered_indices acc \<union> {x}"
    by (simp add: acc covered_indices_snoc Un_assoc)
  from 1 2 3 show ?thesis unfolding m by blast
next
  case False
  then have m: "merge_seq acc x = acc @ [(x, x)]" by (simp add: merge_seq_def acc)
  from la have 1: "list_all (\<lambda>(f, t). f \<le> t) (acc @ [(x, x)])" by simp
  from su acc lt False have 2: "successively (\<lambda>(a, b) (c, d). b + 1 < c) (acc @ [(x, x)])"
    by (auto simp: successively_append_iff)
  have 3: "covered_indices (acc @ [(x, x)]) = covered_indices acc \<union> {x}"
    by (simp add: covered_indices_snoc)
  from 1 2 3 show ?thesis unfolding m by blast
qed

lemma foldl_merge_seq_good:
  "acc = ys @ [(f, t)] \<Longrightarrow> list_all (\<lambda>(f, t). f \<le> t) acc \<Longrightarrow>
   successively (\<lambda>(a, b) (c, d). b + 1 < c) acc \<Longrightarrow>
   sorted_wrt (<) xs \<Longrightarrow> \<forall>x\<in>set xs. t < x \<Longrightarrow>
     list_all (\<lambda>(f, t). f \<le> t) (foldl merge_seq acc xs)
       \<and> successively (\<lambda>(a, b) (c, d). b + 1 < c) (foldl merge_seq acc xs)
       \<and> covered_indices (foldl merge_seq acc xs) = covered_indices acc \<union> set xs"
proof (induction xs arbitrary: acc ys f t)
  case Nil
  then show ?case by simp
next
  case (Cons x xs)
  from Cons.prems have lt: "t < x" by simp
  from merge_seq_good [OF Cons.prems(1) Cons.prems(2) Cons.prems(3) lt]
  obtain ys' f' where m: "merge_seq acc x = ys' @ [(f', x)]"
    and 1: "list_all (\<lambda>(f, t). f \<le> t) (merge_seq acc x)"
    and 2: "successively (\<lambda>(a, b) (c, d). b + 1 < c) (merge_seq acc x)"
    and 3: "covered_indices (merge_seq acc x) = covered_indices acc \<union> {x}" by blast
  from Cons.prems have 4: "sorted_wrt (<) xs" and 5: "\<forall>y\<in>set xs. x < y" by simp_all
  from Cons.IH [OF m 1 2 4 5] 3 show ?case by (simp add: Un_assoc)
qed

lemma do_merge_good:
  assumes "sorted_wrt (<) xs"
  shows "list_all (\<lambda>(f, t). f \<le> t) (do_merge xs)
       \<and> successively (\<lambda>(a, b) (c, d). b + 1 < c) (do_merge xs)
       \<and> covered_indices (do_merge xs) = set xs"
proof (cases xs)
  case Nil
  then show ?thesis by (simp add: covered_indices_def)
next
  case (Cons x xs')
  from assms Cons have 4: "sorted_wrt (<) xs'" and 5: "\<forall>y\<in>set xs'. x < y" by simp_all
  have 0: "[(x, x)] = [] @ [(x, x)]" by simp
  from foldl_merge_seq_good [OF 0 _ _ 4 5] Cons show ?thesis
    by (simp add: covered_indices_def)
qed







lemma coherent_nth:
  "coherent (\<lambda>i. fst (snd ((pre @ ts) ! nat (i - 1)))) (\<lambda>i. snd (snd ((pre @ ts) ! nat (i - 1))))
     (int (length pre)) ts"
proof (induction ts arbitrary: pre)
  case Nil
  then show ?case by simp
next
  case (Cons t ts)
  obtain c a b where t: "t = (c, a, b)" by (cases t)
  have n: "nat (int (length pre) + 1 - 1) = length pre" by simp
  from Cons.IH [of "pre @ [t]"] show ?case
    unfolding t by (simp add: n add.commute)
qed

lemma coherent_scan: "coherent (cp_start s) (cp_end s) 0 (scan_forward s 0)"
proof -
  have "cp_start s = (\<lambda>i. fst (snd (([] @ scan_forward s 0) ! nat (i - 1))))"
    by (rule ext) (simp add: cp_start_def)
  moreover have "cp_end s = (\<lambda>i. snd (snd (([] @ scan_forward s 0) ! nat (i - 1))))"
    by (rule ext) (simp add: cp_end_def)
  ultimately show ?thesis using coherent_nth [of "[]" "scan_forward s 0"] by simp
qed

lemma merge_seq_push:
  assumes acc: "acc2 = ys @ [(f, t)]"
    and adj: "(en t = a) = (t = k)"
    and st: "st (k + 1) = a" and en: "en (k + 1) = b"
  shows "map (\<lambda>(f, t). (st f, en t)) (merge_seq acc2 (k + 1))
       = push_occurrence True (map (\<lambda>(f, t). (st f, en t)) acc2) a b
       \<and> (\<exists>ys' f'. merge_seq acc2 (k + 1) = ys' @ [(f', k + 1)])"
proof (cases "t = k")
  case True
  with adj have "en t = a" by simp
  with True acc st en show ?thesis
    by (simp add: merge_seq_def push_occurrence_def)
next
  case False
  with adj have "en t \<noteq> a" by simp
  with False acc st en show ?thesis
    by (simp add: merge_seq_def push_occurrence_def)
qed

lemma foldl_merge_push:
  "chain j ts e \<Longrightarrow> coherent st en k ts \<Longrightarrow> acc2 = ys @ [(f, t)] \<Longrightarrow>
   t \<le> k \<Longrightarrow> en t \<le> j \<Longrightarrow> (en t = j) = (t = k) \<Longrightarrow>
     map (\<lambda>(f, t). (st f, en t)) (foldl merge_seq acc2 (match_indices P k ts))
       = foldl (\<lambda>occ (a, b). push_occurrence True occ a b)
           (map (\<lambda>(f, t). (st f, en t)) acc2) (match_spans P ts)"
proof (induction ts arbitrary: j k acc2 ys f t)
  case Nil
  then show ?case by (simp add: match_spans_def)
next
  case (Cons x ts)
  obtain c a b where x: "x = (c, a, b)" by (cases x)
  from Cons.prems(1) x have 1: "a = j" "a < b" "chain b ts e" by simp_all
  from Cons.prems(2) x have 2: "st (k + 1) = a" "en (k + 1) = b" "coherent st en (k + 1) ts"
    by simp_all
  show ?case
  proof (cases "P c")
    case True
    from Cons.prems(6) 1 have adj: "(en t = a) = (t = k)" by simp
    from merge_seq_push [where st = st and en = en and k = k, OF Cons.prems(3) adj 2(1) 2(2)]
    obtain ys' f' where m: "merge_seq acc2 (k + 1) = ys' @ [(f', k + 1)]"
      and p: "map (\<lambda>(f, t). (st f, en t)) (merge_seq acc2 (k + 1))
          = push_occurrence True (map (\<lambda>(f, t). (st f, en t)) acc2) a b" by blast
    have i1: "k + 1 \<le> k + 1" by simp
    have i2: "en (k + 1) \<le> b" using 2 by simp
    have i3: "(en (k + 1) = b) = (k + 1 = k + 1)" using 2 by simp
    from Cons.IH [OF 1(3) 2(3) m i1 i2 i3] p True x show ?thesis
      by (simp add: match_spans_def)
  next
    case False
    from Cons.prems(4) have i1: "t \<le> k + 1" by simp
    from Cons.prems(5) 1 have i2: "en t \<le> b" by simp
    from Cons.prems(4) Cons.prems(5) 1 have i3: "(en t = b) = (t = k + 1)" by auto
    from Cons.IH [OF 1(3) 2(3) Cons.prems(3) i1 i2 i3] False x show ?thesis
      by (simp add: match_spans_def)
  qed
qed

lemma do_merge_push:
  "chain j ts e \<Longrightarrow> coherent st en k ts \<Longrightarrow>
     map (\<lambda>(f, t). (st f, en t)) (do_merge (match_indices P k ts))
       = foldl (\<lambda>occ (a, b). push_occurrence True occ a b) [] (match_spans P ts)"
proof (induction ts arbitrary: j k)
  case Nil
  then show ?case by (simp add: match_spans_def)
next
  case (Cons x ts)
  obtain c a b where x: "x = (c, a, b)" by (cases x)
  from Cons.prems(1) x have 1: "a = j" "a < b" "chain b ts e" by simp_all
  from Cons.prems(2) x have 2: "st (k + 1) = a" "en (k + 1) = b" "coherent st en (k + 1) ts"
    by simp_all
  show ?case
  proof (cases "P c")
    case True
    have m: "[(k + 1, k + 1)] = [] @ [(k + 1, k + 1)]" by simp
    have i1: "k + 1 \<le> k + 1" by simp
    have i2: "en (k + 1) \<le> b" using 2 by simp
    have i3: "(en (k + 1) = b) = (k + 1 = k + 1)" using 2 by simp
    from foldl_merge_push [where st = st and en = en and k = "k + 1" and P = P,
        OF 1(3) 2(3) m i1 i2 i3] True x 2 show ?thesis
      by (simp add: match_spans_def push_occurrence_def)
  next
    case False
    from Cons.IH [OF 1(3) 2(3)] False x show ?thesis by (simp add: match_spans_def)
  qed
qed

lemma locate_runs_True: "locate_runs True xs = do_merge xs"
proof (cases xs)
  case Nil
  then show ?thesis by (simp add: locate_runs_def)
next
  case (Cons x xs')
  then show ?thesis by (cases xs') (simp_all add: locate_runs_def)
qed

lemma first_match_Inl: "first_match P k ts = Inl e \<Longrightarrow> e = MSG__INVALID_UTF8"
  by (induction ts arbitrary: k) (auto split: if_splits)

lemma locate_firstlast_row_NA:
  "str = None \<or> pattern = None \<Longrightarrow> locate_firstlast_row first (str, pattern) = Inr (None, None)"
  by (cases str; cases pattern) (simp_all add: locate_firstlast_row_def)

lemma locate_all_row_NA:
  "str = None \<or> pattern = None \<or> merge = None \<Longrightarrow>
     locate_all_row (str, pattern, merge) = Inr notfound"
  by (cases str; cases pattern; cases merge) (simp_all add: locate_all_row_def)

lemma replace_all_row_NA:
  "str = None \<or> pattern = None \<or> replacement = None \<or> merge = None \<Longrightarrow>
     replace_all_row mem buf (str, pattern, replacement, merge) = Inr (NA_STRING, buf)"
  by (cases str; cases pattern; cases replacement; cases merge) (simp_all add: replace_all_row_def)

lemma replace_firstlast_row_NA:
  "str = None \<or> pattern = None \<or> replacement = None \<Longrightarrow>
     replace_firstlast_row first mem buf (str, pattern, replacement) = Inr (NA_STRING, buf)"
  by (cases str; cases pattern; cases replacement) (simp_all add: replace_firstlast_row_def)

lemma sum_case_Inl:
  "(case x of Inl e \<Rightarrow> Inl e | Inr None \<Rightarrow> Inr a | Inr (Some (i, c, p, q)) \<Rightarrow> Inr (g i c p q)) = Inl e'
     \<Longrightarrow> x = Inl e'"
  by (cases x) (auto split: option.splits)

lemma search_first_Inl: "search_first P s 0 0 = Inl e \<Longrightarrow> e = MSG__INVALID_UTF8"
  using search_first_scan [where s = s and j = 0 and P = P and k = 0, OF refl]
    sum_case_Inl [where x = "first_match P 0 (scan_forward s 0)" and a = "(length s, length s)"
      and g = "\<lambda>i c a b. (b, a)" and e' = e]
    first_match_Inl [of P 0 "scan_forward s 0" e]
  by simp

lemma search_last_Inl: "search_last P s (length s) (length s) = Inl e \<Longrightarrow> e = MSG__INVALID_UTF8"
  using search_last_scan [where s = s and i = "length s" and P = P and k = 0, OF refl]
    sum_case_Inl [where x = "first_match P 0 (scan_backward s (length s))" and a = "(0, 0)"
      and g = "\<lambda>i c a b. (b, a)" and e' = e]
    first_match_Inl [of P 0 "scan_backward s (length s)" e]
  by simp









lemma U8_NEXT_ascii:
  assumes "j < length s" and "unat (s ! j) < 0x80"
  shows "U8_NEXT s j (length s) = (int (unat (s ! j)), j + 1)"
proof -
  have "take (length s - j) (drop j s) = drop j s" by simp
  also have "\<dots> = s ! j # drop (Suc j) s" using assms(1) by (simp add: Cons_nth_drop_Suc)
  finally have t: "take (length s - j) (drop j s) = s ! j # drop (Suc j) s" .
  show ?thesis unfolding U8_NEXT_def t using assms(2) by (simp add: lead_len_def)
qed

lemma scan_forward_replicate:
  assumes "unat a < 0x80"
  shows "j \<le> n \<Longrightarrow>
     scan_forward (replicate n a) j = map (\<lambda>i. (int (unat a), i, i + 1)) [j..<n]"
proof (induction "n - j" arbitrary: j)
  case 0
  then show ?case by (simp add: scan_forward_end)
next
  case (Suc d)
  then have lt: "j < n" by simp
  from U8_NEXT_ascii [of j "replicate n a"] lt assms
  have u: "U8_NEXT (replicate n a) j (length (replicate n a)) = (int (unat a), j + 1)" by simp
  from Suc(2) lt have d: "d = n - (j + 1)" by simp
  from lt have le: "j + 1 \<le> n" by simp
  from scan_forward_step [OF _ u] lt Suc(1) [OF d le] show ?case
    by (simp add: upt_conv_Cons)
qed

lemma foldl_push_False:
  "foldl (\<lambda>occ (a, b). push_occurrence False occ a b) acc xs = acc @ xs"
  by (induction xs arbitrary: acc) (simp_all add: push_occurrence_def split: prod.splits)

lemma collect_occurrences_replicate:
  assumes "unat a < 0x80" and "P (int (unat a))"
  shows "collect_occurrences P False (replicate n a) 0 0 [] 0
       = Inr (map (\<lambda>i. (i, i + 1)) [0..<n], n)"
proof -
  have sf: "scan_forward (replicate n a) 0 = map (\<lambda>i. (int (unat a), i, i + 1)) [0..<n]"
    using scan_forward_replicate [OF assms(1), of 0 n] by simp
  have v: "list_all valid_cp (map (\<lambda>i. (int (unat a), i, i + 1)) [0..<n])"
    by (simp add: list_all_iff)
  have ms: "match_spans P (map (\<lambda>i. (int (unat a), i, i + 1)) [0..<n]) = map (\<lambda>i. (i, i + 1)) [0..<n]"
    using assms(2) by (simp add: match_spans_def comp_def)
  have sm: "sum_list (map (\<lambda>(a, b). b - a) (map (\<lambda>i. (i, i + 1)) [0..<n])) = n"
    by (induction n) simp_all
  from collect_occurrences_scan [OF sf, of P False "[]" 0] v ms sm show ?thesis
    by (simp add: foldl_push_False)
qed
section \<open>The claims\<close>

text \<open>
  C1, as the source has it: replace-last finds its match by scanning backward from the
  end and stopping at the first match, for every row: its search gives the span at
  which the backward-scan reference stops, no span when the reference finds none, and
  the failure of the reference; and when the sum of the lengths of the string and of the
  replacement fits \<^verbatim>\<open>R_len_t\<close>, the element of the row is that of the reference.
  Locate-last scans the whole string forward and keeps the last match (it needs the
  index): it raises on an ill-formed sequence anywhere in the string; on a well-formed
  string the index it reports is that of the code point at which the backward scan
  stops, and the two agree on no match.
\<close>

theorem last_match_backward_reference:
  "search_last P s (length s) (length s)
     = (case backward_last_match P s of
          Inl e \<Rightarrow> Inl e
        | Inr None \<Rightarrow> Inr (0, 0)
        | Inr (Some (n, c, a, b)) \<Rightarrow> Inr (b, a))
   \<and> (int (length s) + int (length r) \<le> INT_MAX \<longrightarrow>
        element (replace_firstlast_row False mem buf (Some s, Some P, Some r))
          = replace_last_reference P s r)
   \<and> (well_formed s \<longrightarrow> locate_last_agrees_backward P s)
   \<and> (\<not> well_formed s \<longrightarrow>
        locate_firstlast_row False (Some s, Some P) = Inl MSG__INVALID_UTF8)"
proof (intro conjI impI)
  show "search_last P s (length s) (length s)
     = (case backward_last_match P s of
          Inl e \<Rightarrow> Inl e
        | Inr None \<Rightarrow> Inr (0, 0)
        | Inr (Some (n, c, a, b)) \<Rightarrow> Inr (b, a))"
    by (rule search_last_reference)
next
  assume "int (length s) + int (length r) \<le> INT_MAX"
  then show "element (replace_firstlast_row False mem buf (Some s, Some P, Some r))
      = replace_last_reference P s r"
    by (rule replace_last_row_reference)
next
  assume "well_formed s"
  then show "locate_last_agrees_backward P s" by (rule locate_last_agrees_wf)
next
  assume "\<not> well_formed s"
  then show "locate_firstlast_row False (Some s, Some P) = Inl MSG__INVALID_UTF8"
    using locate_last_loop_scan [where s = s and j = 0 and P = P and k = 0 and ret = None, OF refl]
    by (simp add: locate_firstlast_row_def well_formed_def)
qed

theorem last_match_backward_reference_witness:
  "int (length [0x68, 0x65, 0x6C, 0x6C, 0x6F :: byte]) + int (length [0x5F :: byte]) \<le> INT_MAX
   \<and> well_formed [0x68, 0x65, 0x6C, 0x6C, 0x6F]
   \<and> backward_last_match vowel [0x68, 0x65, 0x6C, 0x6C, 0x6F] = Inr (Some (1, 0x6F, 4, 5))
   \<and> search_last vowel [0x68, 0x65, 0x6C, 0x6C, 0x6F] (length [0x68, 0x65, 0x6C, 0x6C, 0x6F :: byte])
         (length [0x68, 0x65, 0x6C, 0x6C, 0x6F :: byte]) = Inr (5, 4)
   \<and> element (replace_firstlast_row False (\<lambda>_. 0) [] (Some [0x68, 0x65, 0x6C, 0x6C, 0x6F], Some vowel, Some [0x5F]))
       = Inr (mkChar [0x68, 0x65, 0x6C, 0x6C, 0x5F])
   \<and> locate_last_agrees_backward vowel [0x68, 0x65, 0x6C, 0x6C, 0x6F]
   \<and> locate_firstlast_row False (Some [0x68, 0x65, 0x6C, 0x6C, 0x6F], Some vowel) = Inr (Some 5, Some 5)
   \<and> \<not> well_formed [0xFF, 0x61]
   \<and> locate_firstlast_row False (Some [0xFF, 0x61], Some vowel) = Inl MSG__INVALID_UTF8"
proof -
  have h0: "int (length [0x68, 0x65, 0x6C, 0x6C, 0x6F :: byte]) + int (length [0x5F :: byte]) \<le> INT_MAX"
    by (simp add: INT_MAX_def)
  have h1: "well_formed [0x68, 0x65, 0x6C, 0x6C, 0x6F]" by code_simp
  have h2: "backward_last_match vowel [0x68, 0x65, 0x6C, 0x6C, 0x6F] = Inr (Some (1, 0x6F, 4, 5))"
    by code_simp
  have h3: "locate_firstlast_row False (Some [0x68, 0x65, 0x6C, 0x6C, 0x6F], Some vowel) = Inr (Some 5, Some 5)"
    by code_simp
  have h4: "replace_last_reference vowel [0x68, 0x65, 0x6C, 0x6C, 0x6F] [0x5F]
      = Inr (mkChar [0x68, 0x65, 0x6C, 0x6C, 0x5F])" by code_simp
  have h5: "\<not> well_formed [0xFF, 0x61]" by code_simp
  note a = last_match_backward_reference [of vowel "[0x68, 0x65, 0x6C, 0x6C, 0x6F]" "[0x5F]" "\<lambda>_. 0" "[]"]
  note b = last_match_backward_reference [of vowel "[0xFF, 0x61]" "[]" "\<lambda>_. 0" "[]"]
  from a h2 have s: "search_last vowel [0x68, 0x65, 0x6C, 0x6C, 0x6F] (length [0x68, 0x65, 0x6C, 0x6C, 0x6F :: byte])
         (length [0x68, 0x65, 0x6C, 0x6C, 0x6F :: byte]) = Inr (5, 4)" by simp
  from a h0 h4 have e: "element (replace_firstlast_row False (\<lambda>_. 0) [] (Some [0x68, 0x65, 0x6C, 0x6C, 0x6F], Some vowel, Some [0x5F]))
       = Inr (mkChar [0x68, 0x65, 0x6C, 0x6C, 0x5F])" by simp
  from a h1 have l: "locate_last_agrees_backward vowel [0x68, 0x65, 0x6C, 0x6C, 0x6F]" by simp
  from b h5 have f: "locate_firstlast_row False (Some [0xFF, 0x61], Some vowel) = Inl MSG__INVALID_UTF8"
    by simp
  from h0 h1 h2 h3 h5 s e l f show ?thesis by simp
qed

text \<open>
  C1, as stated, fails for locate-last: in the bytes FF 61 with the class of vowels the
  backward scan stops at the last byte, a match, without looking at the ill-formed
  first byte, and replace-last replaces that match; locate-last starts at the first
  byte and raises.
\<close>

theorem locate_last_scans_forward:
  "\<not> locate_last_agrees_backward vowel [0xFF, 0x61]
   \<and> backward_last_match vowel [0xFF, 0x61] = Inr (Some (1, 0x61, 1, 2))
   \<and> locate_firstlast_row False (Some [0xFF, 0x61], Some vowel) = Inl MSG__INVALID_UTF8
   \<and> element (replace_firstlast_row False (\<lambda>_. 0) [] (Some [0xFF, 0x61], Some vowel, Some [0x5F]))
       = Inr (mkChar [0xFF, 0x5F])"
  by code_simp

text \<open>
  C2, as the source has it: in the locate operations a row in which nothing matches
  (all inputs present, the string well formed, the empty string included) and a row with
  a missing input give the same value: the 1x2 matrix of NA for
  \<^verbatim>\<open>stri_locate_all_charclass\<close>, the pair of NA for the first and last variants. The
  output does not tell the two outcomes apart.
\<close>

theorem locate_no_match_is_NA:
  assumes "well_formed s" and "matches P s = []"
  shows "locate_all_row (Some s, Some P, Some m) = Inr notfound
       \<and> locate_firstlast_row first (Some s, Some P) = Inr (None, None)
       \<and> (str = None \<or> pattern = None \<or> merge = None \<longrightarrow>
            locate_all_row (str, pattern, merge) = locate_all_row (Some s, Some P, Some m))
       \<and> (str = None \<or> pattern = None \<longrightarrow>
            locate_firstlast_row first (str, pattern) = locate_firstlast_row first (Some s, Some P))"
proof -
  from assms(2) have mi: "match_indices P 0 (scan_forward s 0) = []"
    by (simp add: matches_def match_indices_Nil)
  have "locate_firstlast_row first (Some s, Some P) = Inr (None, None)"
    using mi locate_first_row_wf [OF assms(1), of P] locate_last_row_wf [OF assms(1), of P]
    by (cases first) simp_all
  with mi locate_all_row_wf [OF assms(1), of P m]
    locate_all_row_NA [of str pattern merge] locate_firstlast_row_NA [of str pattern first]
  show ?thesis by simp
qed

theorem locate_no_match_is_NA_witness:
  "well_formed [0x78, 0x79, 0x7A] \<and> matches vowel [0x78, 0x79, 0x7A] = []
     \<and> locate_all_row (Some [0x78, 0x79, 0x7A], Some vowel, Some True) = Inr notfound
     \<and> locate_firstlast_row True (Some [0x78, 0x79, 0x7A], Some vowel) = Inr (None, None)
     \<and> locate_all_row (None, Some vowel, Some True)
         = locate_all_row (Some [0x78, 0x79, 0x7A], Some vowel, Some True)
     \<and> locate_firstlast_row True (None, Some vowel)
         = locate_firstlast_row True (Some [0x78, 0x79, 0x7A], Some vowel)"
proof -
  have h1: "well_formed [0x78, 0x79, 0x7A]" by code_simp
  have h2: "matches vowel [0x78, 0x79, 0x7A] = []" by code_simp
  from locate_no_match_is_NA [OF h1 h2, where m = True and first = True and str = None
      and pattern = "Some vowel" and merge = "Some True"] h1 h2
  show ?thesis by simp
qed

text \<open>
  C2, as stated, fails: the string "xyz" with the class of vowels (no match) and a row
  whose string is NA give equal results, and so do the empty string and a row whose
  class is NA.
\<close>

theorem locate_no_match_not_distinguished:
  "locate_all_row (Some [0x78, 0x79, 0x7A], Some vowel, Some False)
     = locate_all_row (None, Some vowel, Some False)
   \<and> locate_all_row (Some [], Some vowel, Some False)
     = locate_all_row (Some [], None, Some False)
   \<and> locate_firstlast_row True (Some [0x78, 0x79, 0x7A], Some vowel)
     = locate_firstlast_row True (None, Some vowel)
   \<and> locate_firstlast_row False (Some [0x78, 0x79, 0x7A], Some vowel)
     = locate_firstlast_row False (None, Some vowel)"
  by code_simp

text \<open>
  The sizes of the replace functions where they fit \<^verbatim>\<open>R_len_t\<close>. In a row with all inputs
  present, a well-formed string and at least one span, if the length of the string plus
  the number of spans times the length of the replacement is at most \<^verbatim>\<open>INT_MAX\<close>, then the
  length \<^verbatim>\<open>buf_need\<close> that replace-all computes before resizing the buffer is the length
  of the string plus the number of spans times the length of the replacement minus the
  bytes of the spans (which is what \<^verbatim>\<open>sumbytes\<close> holds); the copy pass stays inside the
  buffer (the element is not \<open>UNDEFINED\<close>), writes the first \<^verbatim>\<open>buf_need\<close> bytes, which do
  not depend on what the buffer held before, and leaves the bytes after them as they
  were; the string made from the buffer has length \<^verbatim>\<open>buf_need\<close>. Analogously with one span
  for replace-first and replace-last, if the sum of the lengths of the string and of the
  replacement is at most \<^verbatim>\<open>INT_MAX\<close>.
\<close>

lemma replace_buffer_exact:
  assumes "well_formed s"
  shows "(collect_occurrences P m s 0 0 [] 0 = Inr (occ, sumbytes) \<and> occ \<noteq> []
            \<and> int (length s) + int (length occ) * int (length r) \<le> INT_MAX \<longrightarrow>
            sumbytes = span_bytes occ
          \<and> buf_need_all s r occ sumbytes
              = Some (int (length s) + int (length occ) * int (length r) - int (span_bytes occ))
          \<and> replace_all_row mem buf (Some s, Some P, Some r, Some m)
              = Inr (mkChar (splice s r 0 occ),
                     splice s r 0 occ
                       @ drop (length (splice s r 0 occ))
                           (resize mem buf (int (length (splice s r 0 occ)))))
          \<and> int (length (splice s r 0 occ))
              = int (length s) + int (length occ) * int (length r) - int (span_bytes occ))
       \<and> ((if first then search_first P s 0 0
            else search_last P s (length s) (length s)) = Inr (j, jlast) \<and> j \<noteq> jlast
            \<and> int (length s) + int (length r) \<le> INT_MAX \<longrightarrow>
            buf_need_one s r j jlast
              = Some (int (length s) + int (length r) - (int j - int jlast))
          \<and> replace_firstlast_row first mem buf (Some s, Some P, Some r)
              = Inr (mkChar (take jlast s @ r @ drop j s),
                     (take jlast s @ r @ drop j s)
                       @ drop (length (take jlast s @ r @ drop j s))
                           (resize mem buf (int (length (take jlast s @ r @ drop j s)))))
          \<and> int (length (take jlast s @ r @ drop j s))
              = int (length s) + int (length r) - (int j - int jlast))"
proof (intro conjI impI)
  assume a: "collect_occurrences P m s 0 0 [] 0 = Inr (occ, sumbytes) \<and> occ \<noteq> []
      \<and> int (length s) + int (length occ) * int (length r) \<le> INT_MAX"
  then have co: "collect_occurrences P m s 0 0 [] 0 = Inr (occ, sumbytes)" and ne: "occ \<noteq> []"
    and fit: "int (length s) + int (length occ) * int (length r) \<le> INT_MAX"
    by simp_all
  from collect_occurrences_wf [OF assms co] have sp: "spans_from 0 occ (length s)"
    and sb: "sumbytes = span_bytes occ" by blast+
  from sb show "sumbytes = span_bytes occ" .
  from splice_length [OF sp, where r = "[]"] sb have le: "sumbytes \<le> length s" by simp
  from buf_need_all_fits [OF fit le] sb
  show bn: "buf_need_all s r occ sumbytes
      = Some (int (length s) + int (length occ) * int (length r) - int (span_bytes occ))"
    by simp
  from splice_length [OF sp, where r = r]
  show len: "int (length (splice s r 0 occ))
      = int (length s) + int (length occ) * int (length r) - int (span_bytes occ)"
    by simp
  from bn have bn': "buf_need_all s r occ sumbytes = Some (int (length (splice s r 0 occ)))"
    unfolding len .
  from replace_all_row_found [OF assms co ne bn', of mem buf, THEN conjunct1, unfolded nat_int]
  show "replace_all_row mem buf (Some s, Some P, Some r, Some m)
      = Inr (mkChar (splice s r 0 occ),
             splice s r 0 occ
               @ drop (length (splice s r 0 occ))
                   (resize mem buf (int (length (splice s r 0 occ)))))" .
next
  assume a: "(if first then search_first P s 0 0
      else search_last P s (length s) (length s)) = Inr (j, jlast) \<and> j \<noteq> jlast
      \<and> int (length s) + int (length r) \<le> INT_MAX"
  then have 1: "(if first then search_first P s 0 0
      else search_last P s (length s) (length s)) = Inr (j, jlast)" and 2: "j \<noteq> jlast"
    and fit: "int (length s) + int (length r) \<le> INT_MAX"
    by simp_all
  have b: "jlast \<le> j" "j \<le> length s"
    using 1 2 search_first_bounds [of P s j jlast] search_last_bounds [of P s j jlast]
    by (cases first; simp)+
  from buf_need_one_fits [OF fit b]
  show bn: "buf_need_one s r j jlast
      = Some (int (length s) + int (length r) - (int j - int jlast))" .
  from b
  show len: "int (length (take jlast s @ r @ drop j s))
      = int (length s) + int (length r) - (int j - int jlast)"
    by simp
  from bn have bn': "buf_need_one s r j jlast = Some (int (length (take jlast s @ r @ drop j s)))"
    unfolding len .
  from replace_firstlast_row_exact [OF 1 2 bn', of mem buf, THEN conjunct1, unfolded nat_int]
  show "replace_firstlast_row first mem buf (Some s, Some P, Some r)
      = Inr (mkChar (take jlast s @ r @ drop j s),
             (take jlast s @ r @ drop j s)
               @ drop (length (take jlast s @ r @ drop j s))
                   (resize mem buf (int (length (take jlast s @ r @ drop j s)))))" .
qed

text \<open>
  An instance: the vowels of ``hello'' replaced by two underscores in a buffer of nine
  bytes, and its last vowel replaced in an empty buffer.
\<close>

lemma replace_buffer_exact_example:
  "well_formed [0x68, 0x65, 0x6C, 0x6C, 0x6F]
   \<and> collect_occurrences vowel False [0x68, 0x65, 0x6C, 0x6C, 0x6F] 0 0 [] 0
       = Inr ([(1, 2), (4, 5)], 2)
   \<and> buf_need_all [0x68, 0x65, 0x6C, 0x6C, 0x6F] [0x5F, 0x5F] [(1, 2), (4, 5)] 2 = Some 7
   \<and> replace_all_row (\<lambda>_. 0) [1, 2, 3, 4, 5, 6, 7, 8, 9]
        (Some [0x68, 0x65, 0x6C, 0x6C, 0x6F], Some vowel, Some [0x5F, 0x5F], Some False)
       = Inr (mkChar [0x68, 0x5F, 0x5F, 0x6C, 0x6C, 0x5F, 0x5F],
              [0x68, 0x5F, 0x5F, 0x6C, 0x6C, 0x5F, 0x5F, 8, 9])
   \<and> search_last vowel [0x68, 0x65, 0x6C, 0x6C, 0x6F] (length [0x68, 0x65, 0x6C, 0x6C, 0x6F :: byte])
         (length [0x68, 0x65, 0x6C, 0x6C, 0x6F :: byte]) = Inr (5, 4)
   \<and> buf_need_one [0x68, 0x65, 0x6C, 0x6C, 0x6F] [0x5F, 0x5F] 5 4 = Some 6
   \<and> replace_firstlast_row False (\<lambda>_. 0) []
        (Some [0x68, 0x65, 0x6C, 0x6C, 0x6F], Some vowel, Some [0x5F, 0x5F])
       = Inr (mkChar [0x68, 0x65, 0x6C, 0x6C, 0x5F, 0x5F], [0x68, 0x65, 0x6C, 0x6C, 0x5F, 0x5F])"
proof -
  have h1: "well_formed [0x68, 0x65, 0x6C, 0x6C, 0x6F]" by code_simp
  have h2: "collect_occurrences vowel False [0x68, 0x65, 0x6C, 0x6C, 0x6F] 0 0 [] 0
       = Inr ([(1, 2), (4, 5)], 2)" by code_simp
  have h3: "search_last vowel [0x68, 0x65, 0x6C, 0x6C, 0x6F] (length [0x68, 0x65, 0x6C, 0x6C, 0x6F :: byte])
         (length [0x68, 0x65, 0x6C, 0x6C, 0x6F :: byte]) = Inr (5, 4)" by code_simp
  have h4: "int (length [0x68, 0x65, 0x6C, 0x6C, 0x6F :: byte])
      + int (length [(1 :: nat, 2 :: nat), (4, 5)]) * int (length [0x5F, 0x5F :: byte]) \<le> INT_MAX"
    by (simp add: INT_MAX_def)
  have h5: "int (length [0x68, 0x65, 0x6C, 0x6C, 0x6F :: byte]) + int (length [0x5F, 0x5F :: byte])
      \<le> INT_MAX"
    by (simp add: INT_MAX_def)
  note t1 = replace_buffer_exact [OF h1, of vowel False "[(1, 2), (4, 5)]" 2 "[0x5F, 0x5F]"
      "\<lambda>_. 0" "[1, 2, 3, 4, 5, 6, 7, 8, 9]" False 5 4]
  note t2 = replace_buffer_exact [OF h1, of vowel False "[(1, 2), (4, 5)]" 2 "[0x5F, 0x5F]"
      "\<lambda>_. 0" "[]" False 5 4]
  from t1 h2 h4 have n1: "buf_need_all [0x68, 0x65, 0x6C, 0x6C, 0x6F] [0x5F, 0x5F] [(1, 2), (4, 5)] 2 = Some 7"
    by (simp add: span_bytes_def)
  from t1 h2 h4
  have a: "replace_all_row (\<lambda>_. 0) [1, 2, 3, 4, 5, 6, 7, 8, 9]
        (Some [0x68, 0x65, 0x6C, 0x6C, 0x6F], Some vowel, Some [0x5F, 0x5F], Some False)
       = Inr (mkChar [0x68, 0x5F, 0x5F, 0x6C, 0x6C, 0x5F, 0x5F],
              [0x68, 0x5F, 0x5F, 0x6C, 0x6C, 0x5F, 0x5F, 8, 9])"
    by (simp add: resize_def)
  from t2 h3 h5 have n2: "buf_need_one [0x68, 0x65, 0x6C, 0x6C, 0x6F] [0x5F, 0x5F] 5 4 = Some 6"
    by simp
  from t2 h3 h5
  have b: "replace_firstlast_row False (\<lambda>_. 0) []
        (Some [0x68, 0x65, 0x6C, 0x6C, 0x6F], Some vowel, Some [0x5F, 0x5F])
       = Inr (mkChar [0x68, 0x65, 0x6C, 0x6C, 0x5F, 0x5F], [0x68, 0x65, 0x6C, 0x6C, 0x5F, 0x5F])"
    by (simp add: resize_def)
  from h1 h2 h3 n1 n2 a b show ?thesis by simp
qed

text \<open>
  C3 fails in the source where the size does not fit \<^verbatim>\<open>R_len_t\<close>, which no check
  excludes. A string of 46341 letters a, the class of vowels, a replacement of 46341
  bytes and no merging: there are 46341 spans of one byte each, the output has
  46341 * 46341 = 2147488281 bytes by the formula of the claim, and this is more than
  \<^verbatim>\<open>INT_MAX\<close>. The product of the number of spans and the length of the replacement
  overflows, \<^verbatim>\<open>buf_need\<close> has no defined value and the row no defined element: the buffer
  is not resized to the bytes that the copy pass writes. The same happens in
  replace-first and replace-last with the string ``ab'' and a replacement of
  \<^verbatim>\<open>INT_MAX\<close> bytes, where the sum of the two lengths overflows.
\<close>

theorem replace_size_overflow:
  "collect_occurrences vowel False (replicate 46341 0x61) 0 0 [] 0
       = Inr (map (\<lambda>i. (i, Suc i)) [0..<46341], 46341)
   \<and> int (length (replicate 46341 (0x61 :: byte)))
        + int (length (map (\<lambda>i. (i, Suc i)) [0..<46341 :: nat]))
            * int (length (replicate 46341 (0x5F :: byte)))
        - int 46341 = 2147488281
   \<and> INT_MAX < 2147488281
   \<and> buf_need_all (replicate 46341 0x61) (replicate 46341 0x5F)
         (map (\<lambda>i. (i, Suc i)) [0..<46341]) 46341 = None
   \<and> replace_all_row mem buf
         (Some (replicate 46341 0x61), Some vowel, Some (replicate 46341 0x5F), Some False)
       = Inr (UNDEFINED, buf)
   \<and> stri_replace_all_charclass mem
         [(Some (replicate 46341 0x61), Some vowel, Some (replicate 46341 0x5F), Some False)]
       = Inr [UNDEFINED]
   \<and> search_first vowel [0x61, 0x62] 0 0 = Inr (1, 0)
   \<and> search_last vowel [0x61, 0x62] (length [0x61, 0x62 :: byte]) (length [0x61, 0x62 :: byte])
       = Inr (1, 0)
   \<and> buf_need_one [0x61, 0x62] (replicate 2147483647 0x5F) 1 0 = None
   \<and> replace_firstlast_row first mem buf
         (Some [0x61, 0x62], Some vowel, Some (replicate 2147483647 0x5F))
       = Inr (UNDEFINED, buf)"
proof -
  have co: "collect_occurrences vowel False (replicate 46341 0x61) 0 0 [] 0
       = Inr (map (\<lambda>i. (i, Suc i)) [0..<46341], 46341)"
    using collect_occurrences_replicate [of "0x61" vowel 46341]
    by (simp add: vowel_def del: upt_rec_numeral)
  have sz: "int (length (replicate 46341 (0x61 :: byte)))
        + int (length (map (\<lambda>i. (i, Suc i)) [0..<46341 :: nat]))
            * int (length (replicate 46341 (0x5F :: byte)))
        - int 46341 = 2147488281"
    by (simp del: upt_rec_numeral)
  have mx: "INT_MAX < 2147488281" by (simp add: INT_MAX_def)
  have bn: "buf_need_all (replicate 46341 0x61) (replicate 46341 0x5F)
         (map (\<lambda>i. (i, Suc i)) [0..<46341]) 46341 = None"
    by (simp add: buf_need_all_def checked_def representable_def INT_MAX_def INT_MIN_def
        del: upt_rec_numeral)
  have row: "replace_all_row mem buf
         (Some (replicate 46341 0x61), Some vowel, Some (replicate 46341 0x5F), Some False)
       = Inr (UNDEFINED, buf)" for buf
    by (simp add: replace_all_row_def co bn del: upt_rec_numeral)
  have call: "stri_replace_all_charclass mem
         [(Some (replicate 46341 0x61), Some vowel, Some (replicate 46341 0x5F), Some False)]
       = Inr [UNDEFINED]"
    by (simp add: stri_replace_all_charclass_def row)
  have s1: "search_first vowel [0x61, 0x62] 0 0 = Inr (1, 0)" by code_simp
  have s2: "search_last vowel [0x61, 0x62] (length [0x61, 0x62 :: byte]) (length [0x61, 0x62 :: byte])
       = Inr (1, 0)" by code_simp
  have b1: "buf_need_one [0x61, 0x62] (replicate 2147483647 0x5F) 1 0 = None"
    by (simp add: buf_need_one_def checked_def representable_def INT_MAX_def INT_MIN_def)
  have fl: "replace_firstlast_row first mem buf
         (Some [0x61, 0x62], Some vowel, Some (replicate 2147483647 0x5F))
       = Inr (UNDEFINED, buf)"
    using s1 s2 b1 by (cases first) (simp_all add: replace_firstlast_row_def)
  from co sz mx bn row call s1 s2 b1 fl show ?thesis by blast
qed

text \<open>
  C4: in a row with all inputs present and a well-formed string in which no code point
  is in the class (the empty string included), replace-all, replace-first and
  replace-last give the input string itself (\<^verbatim>\<open>str_cont.toR(i)\<close>), not a copy made from
  the buffer, and leave the buffer as it was.
\<close>

theorem replace_zero_matches_unchanged:
  assumes "well_formed s" and "matches P s = []"
  shows "replace_all_row mem buf (Some s, Some P, Some r, Some m) = Inr (toR s, buf)
       \<and> replace_firstlast_row True mem buf (Some s, Some P, Some r) = Inr (toR s, buf)
       \<and> replace_firstlast_row False mem buf (Some s, Some P, Some r) = Inr (toR s, buf)"
proof -
  from assms have v: "list_all valid_cp (scan_forward s 0)"
    and f: "filter (\<lambda>t. P (fst t)) (scan_forward s 0) = []"
    by (simp_all add: well_formed_def matches_def)
  from f have ms: "match_spans P (scan_forward s 0) = []" by (simp add: match_spans_def)
  have 1: "replace_all_row mem buf (Some s, Some P, Some r, Some m) = Inr (toR s, buf)"
    using collect_occurrences_scan [where s = s and j = 0 and P = P and m = m and occ = "[]" and sb = 0, OF refl] v ms
    by (simp add: replace_all_row_def)
  have 2: "replace_firstlast_row True mem buf (Some s, Some P, Some r) = Inr (toR s, buf)"
    using search_first_scan [where s = s and j = 0 and P = P and k = 0, OF refl] first_match_none [OF v f, of 0]
    by (simp add: replace_firstlast_row_def)
  have vb: "list_all valid_cp (rev (scan_forward s 0))" using v by (simp add: list_all_rev_valid)
  have fb: "filter (\<lambda>t. P (fst t)) (rev (scan_forward s 0)) = []"
    using f by (simp add: filter_empty_conv)
  have 3: "replace_firstlast_row False mem buf (Some s, Some P, Some r) = Inr (toR s, buf)"
    using search_last_scan [where P = P and k = 0, OF scan_symmetry [OF assms(1)]]
      first_match_none [OF vb fb, of 0]
    by (simp add: replace_firstlast_row_def)
  from 1 2 3 show ?thesis by simp
qed


theorem replace_zero_matches_unchanged_witness:
  "well_formed [0x78, 0x79, 0x7A] \<and> matches vowel [0x78, 0x79, 0x7A] = []
   \<and> replace_all_row (\<lambda>_. 0) [] (Some [0x78, 0x79, 0x7A], Some vowel, Some [0x5F], Some True)
       = Inr (toR [0x78, 0x79, 0x7A], [])
   \<and> replace_firstlast_row False (\<lambda>_. 0) [] (Some [0x78, 0x79, 0x7A], Some vowel, Some [0x5F])
       = Inr (toR [0x78, 0x79, 0x7A], [])"
proof -
  have h1: "well_formed [0x78, 0x79, 0x7A]" by code_simp
  have h2: "matches vowel [0x78, 0x79, 0x7A] = []" by code_simp
  from replace_zero_matches_unchanged [OF h1 h2, of "\<lambda>_. 0" "[]" "[0x5F]" True] h1 h2
  show ?thesis by simp
qed






text \<open>
  C7: in a row with all inputs present and a well-formed string, the runs that
  locate-all builds by joining consecutive indices and the spans that replace-all builds
  by joining byte-adjacent matches are the same runs: the list of index runs, each
  taken to the bytes from the start of its first code point to the end of its last, is
  the list of spans; and the runs cover exactly the indices of the matching code points.
\<close>

theorem merge_tests_equivalent:
  assumes "well_formed s"
  shows "\<exists>runs occ sumbytes.
           locate_all_row (Some s, Some P, Some True) = Inr (matrix_of runs)
         \<and> collect_occurrences P True s 0 0 [] 0 = Inr (occ, sumbytes)
         \<and> map (\<lambda>(f, t). (cp_start s f, cp_end s t)) runs = occ
         \<and> covered_indices runs = set (match_indices P 0 (scan_forward s 0))"
proof -
  define ts where "ts = scan_forward s 0"
  define mi where "mi = match_indices P 0 ts"
  from assms have v: "list_all valid_cp ts" by (simp add: well_formed_def ts_def)
  from scan_forward_chain [OF refl v [unfolded ts_def]] have ch: "chain 0 ts (length s)"
    by (simp add: ts_def)
  have 1: "locate_all_row (Some s, Some P, Some True) = Inr (matrix_of (do_merge mi))"
    using locate_all_row_runs [OF assms, of P True] by (simp add: locate_runs_True mi_def ts_def)
  have 2: "collect_occurrences P True s 0 0 [] 0
      = Inr (foldl (\<lambda>occ (a, b). push_occurrence True occ a b) [] (match_spans P ts),
             span_bytes (match_spans P ts))"
    using collect_occurrences_scan [where s = s and j = 0 and P = P and m = True and occ = "[]"
        and sb = 0, OF refl] v
    by (simp add: ts_def span_bytes_def)
  have 3: "map (\<lambda>(f, t). (cp_start s f, cp_end s t)) (do_merge mi)
      = foldl (\<lambda>occ (a, b). push_occurrence True occ a b) [] (match_spans P ts)"
    using do_merge_push [where st = "cp_start s" and en = "cp_end s" and k = 0 and P = P,
        OF ch coherent_scan [of s, folded ts_def]] by (simp add: mi_def)
  from match_indices_sorted [of P 0 ts] have "sorted_wrt (<) mi" by (simp add: mi_def)
  from do_merge_good [OF this] have 4: "covered_indices (do_merge mi) = set mi" by simp
  from 1 2 3 4 show ?thesis unfolding mi_def ts_def by blast
qed

theorem merge_tests_equivalent_witness:
  "well_formed [0x62, 0x61, 0x61, 0x62, 0x65]
   \<and> locate_all_row (Some [0x62, 0x61, 0x61, 0x62, 0x65], Some vowel, Some True)
       = Inr (matrix_of [(2, 3), (5, 5)])
   \<and> collect_occurrences vowel True [0x62, 0x61, 0x61, 0x62, 0x65] 0 0 [] 0
       = Inr ([(1, 3), (4, 5)], 3)
   \<and> map (\<lambda>(f, t). (cp_start [0x62, 0x61, 0x61, 0x62, 0x65] f, cp_end [0x62, 0x61, 0x61, 0x62, 0x65] t))
        [(2, 3), (5, 5)] = [(1, 3), (4, 5)]
   \<and> (\<exists>runs occ sumbytes.
           locate_all_row (Some [0x62, 0x61, 0x61, 0x62, 0x65], Some vowel, Some True) = Inr (matrix_of runs)
         \<and> collect_occurrences vowel True [0x62, 0x61, 0x61, 0x62, 0x65] 0 0 [] 0 = Inr (occ, sumbytes)
         \<and> map (\<lambda>(f, t). (cp_start [0x62, 0x61, 0x61, 0x62, 0x65] f, cp_end [0x62, 0x61, 0x61, 0x62, 0x65] t)) runs = occ
         \<and> covered_indices runs = set (match_indices vowel 0 (scan_forward [0x62, 0x61, 0x61, 0x62, 0x65] 0)))"
proof -
  have h1: "well_formed [0x62, 0x61, 0x61, 0x62, 0x65]" by code_simp
  have h2: "locate_all_row (Some [0x62, 0x61, 0x61, 0x62, 0x65], Some vowel, Some True)
       = Inr (matrix_of [(2, 3), (5, 5)])" by code_simp
  have h3: "collect_occurrences vowel True [0x62, 0x61, 0x61, 0x62, 0x65] 0 0 [] 0
       = Inr ([(1, 3), (4, 5)], 3)" by code_simp
  have h4: "map (\<lambda>(f, t). (cp_start [0x62, 0x61, 0x61, 0x62, 0x65] f, cp_end [0x62, 0x61, 0x61, 0x62, 0x65] t))
        [(2, 3), (5, 5)] = [(1, 3), (4, 5)]" by code_simp
  from merge_tests_equivalent [OF h1, of vowel] h1 h2 h3 h4 show ?thesis by blast
qed

text \<open>
  C8: in a row with all inputs present, a well-formed string and at least one matching
  code point, the start of the first run of the merged locate-all result is the index
  that locate-first gives.
\<close>

theorem first_run_starts_at_first:
  assumes "well_formed s" and "matches P s \<noteq> []"
  shows "\<exists>k M. locate_firstlast_row True (Some s, Some P) = Inr (Some k, Some k)
           \<and> locate_all_row (Some s, Some P, Some True) = Inr M
           \<and> M \<noteq> [] \<and> fst (hd M) = Some k"
proof -
  define mi where "mi = match_indices P 0 (scan_forward s 0)"
  from assms(2) have ne: "mi \<noteq> []" by (simp add: mi_def matches_def match_indices_Nil)
  have 1: "locate_firstlast_row True (Some s, Some P) = Inr (Some (hd mi), Some (hd mi))"
    using locate_first_row_wf [OF assms(1), of P] ne by (simp add: mi_def)
  have 2: "locate_all_row (Some s, Some P, Some True) =
      Inr (if length mi > 1 then map (\<lambda>(f, t). (Some f, Some t)) (do_merge mi)
           else map (\<lambda>k. (Some k, Some k)) mi)"
    using locate_all_row_wf [OF assms(1), of P True] ne by (simp add: mi_def)
  show ?thesis
  proof (cases "length mi > 1")
    case True
    from do_merge_hd [OF ne] have "do_merge mi \<noteq> []" "fst (hd (do_merge mi)) = hd mi" by simp_all
    with 1 2 True show ?thesis by (cases "do_merge mi") (auto split: prod.splits)
  next
    case False
    with 1 2 ne show ?thesis by (cases mi) auto
  qed
qed

theorem first_run_starts_at_first_witness:
  "well_formed [0x62, 0x61, 0x61, 0x62] \<and> matches vowel [0x62, 0x61, 0x61, 0x62] \<noteq> []
   \<and> locate_firstlast_row True (Some [0x62, 0x61, 0x61, 0x62], Some vowel) = Inr (Some 2, Some 2)
   \<and> locate_all_row (Some [0x62, 0x61, 0x61, 0x62], Some vowel, Some True) = Inr [(Some 2, Some 3)]
   \<and> (\<exists>k M. locate_firstlast_row True (Some [0x62, 0x61, 0x61, 0x62], Some vowel) = Inr (Some k, Some k)
           \<and> locate_all_row (Some [0x62, 0x61, 0x61, 0x62], Some vowel, Some True) = Inr M
           \<and> M \<noteq> [] \<and> fst (hd M) = Some k)"
proof -
  have h1: "well_formed [0x62, 0x61, 0x61, 0x62]" by code_simp
  have h2: "matches vowel [0x62, 0x61, 0x61, 0x62] \<noteq> []" by code_simp
  have h3: "locate_firstlast_row True (Some [0x62, 0x61, 0x61, 0x62], Some vowel) = Inr (Some 2, Some 2)"
    by code_simp
  have h4: "locate_all_row (Some [0x62, 0x61, 0x61, 0x62], Some vowel, Some True) = Inr [(Some 2, Some 3)]"
    by code_simp
  from first_run_starts_at_first [OF h1 h2] h1 h2 h3 h4 show ?thesis by blast
qed




text \<open>
  C10: in a row with all inputs present and a well-formed string, replace-all with the
  empty replacement gives the same element with \<^verbatim>\<open>merge\<close> true as with \<^verbatim>\<open>merge\<close>
  false, whatever the scratch buffer holds: the input string itself when nothing
  matches, and otherwise the bytes of the code points that are not in the class.
\<close>

theorem replace_all_empty_merge_irrelevant:
  assumes "well_formed s"
  shows "element (replace_all_row mem buf (Some s, Some P, Some [], Some True))
       = element (replace_all_row mem' buf' (Some s, Some P, Some [], Some False))
     \<and> element (replace_all_row mem buf (Some s, Some P, Some [], Some True))
       = Inr (if matches P s = [] then toR s else mkChar (kept P s (scan_forward s 0)))"
  using replace_all_row_wf [OF assms, of mem buf P True]
    replace_all_row_wf [OF assms, of mem' buf' P False]
  by simp

theorem replace_all_empty_merge_irrelevant_witness:
  "well_formed [0x62, 0x61, 0x61, 0x62, 0x65]
   \<and> element (replace_all_row (\<lambda>_. 0) [] (Some [0x62, 0x61, 0x61, 0x62, 0x65], Some vowel, Some [], Some True))
       = Inr (mkChar [0x62, 0x62])
   \<and> element (replace_all_row (\<lambda>_. 1) [7, 7, 7] (Some [0x62, 0x61, 0x61, 0x62, 0x65], Some vowel, Some [], Some False))
       = Inr (mkChar [0x62, 0x62])"
proof -
  have h1: "well_formed [0x62, 0x61, 0x61, 0x62, 0x65]" by code_simp
  have h2: "element (replace_all_row (\<lambda>_. 0) [] (Some [0x62, 0x61, 0x61, 0x62, 0x65], Some vowel, Some [], Some True))
       = Inr (mkChar [0x62, 0x62])" by code_simp
  have "element (replace_all_row (\<lambda>_. 0) [] (Some [0x62, 0x61, 0x61, 0x62, 0x65], Some vowel, Some [], Some True))
      = element (replace_all_row (\<lambda>_. 1) [7, 7, 7] (Some [0x62, 0x61, 0x61, 0x62, 0x65], Some vowel, Some [], Some False))"
    by (rule replace_all_empty_merge_irrelevant [OF h1, THEN conjunct1])
  with h1 h2 show ?thesis by simp
qed

end
